theory Spec2Isabelle
  imports Main "HOL-Library.Word" "HOL-Library.Sublist"
begin

section \<open>Go values used by the proxy\<close>

text \<open>
  The proxy is written in Go. A Go function either returns or panics; the model keeps
  the panic as a value, so that every out-of-range index and every bad slice expression
  of the source is a branch of the model.
\<close>

datatype 'a go = Panic | Ret 'a

type_synonym byte = "8 word"

text \<open>
  A Go slice \<open>[]byte\<close> is a window into a backing array: \<open>elems\<close> are the
  \<open>len\<close> visible bytes, \<open>spare\<close> the bytes of the backing array between
  \<open>len\<close> and \<open>cap\<close>. An index expression \<open>s[i]\<close> is checked against the length, a
  slice expression \<open>s[lo:hi]\<close> against the capacity (so it can make bytes of \<open>spare\<close>
  visible). Go's \<open>int\<close> is modelled as \<open>int\<close>: every position the parser computes is a
  sum of at most a few hundred thousand, far from the 64-bit (or 32-bit) limit.
\<close>

datatype slice = Slice (elems: "byte list") (spare: "byte list")

definition slice_len :: "slice \<Rightarrow> int" where
  "slice_len s = int (length (elems s))"

definition slice_cap :: "slice \<Rightarrow> int" where
  "slice_cap s = int (length (elems s) + length (spare s))"

definition index :: "slice \<Rightarrow> int \<Rightarrow> byte go" where
  "index s i = (if 0 \<le> i \<and> i < slice_len s then Ret (elems s ! nat i) else Panic)"

definition subslice :: "slice \<Rightarrow> int \<Rightarrow> int \<Rightarrow> slice go" where
  "subslice s lo hi =
     (if 0 \<le> lo \<and> lo \<le> hi \<and> hi \<le> slice_cap s
      then Ret (Slice (take (nat (hi - lo)) (drop (nat lo) (elems s @ spare s)))
                      (drop (nat hi) (elems s @ spare s)))
      else Panic)"

text \<open>\<open>binary.BigEndian.Uint16(b)\<close>: needs two visible bytes, the first is the high one.\<close>

definition be16 :: "byte \<Rightarrow> byte \<Rightarrow> 16 word" where
  "be16 hi lo = word_of_nat (unat hi * 256 + unat lo)"

definition Uint16 :: "slice \<Rightarrow> 16 word go" where
  "Uint16 b = (case elems b of b0 # b1 # _ \<Rightarrow> Ret (be16 b0 b1) | _ \<Rightarrow> Panic)"

text \<open>\<open>binary.BigEndian.Uint16(s[lo:lo+2])\<close>, the form every two-byte read of the source has.\<close>

definition Uint16_at :: "slice \<Rightarrow> int \<Rightarrow> 16 word go" where
  "Uint16_at s lo = (case subslice s lo (lo + 2) of Panic \<Rightarrow> Panic | Ret b \<Rightarrow> Uint16 b)"

text \<open>
  A Go \<open>string\<close> is a sequence of bytes, as an Isabelle \<open>string\<close> is; \<open>string(b)\<close>
  copies the visible bytes of \<open>b\<close>.
\<close>

definition byte_to_char :: "byte \<Rightarrow> char" where
  "byte_to_char b = char_of (unat b)"

definition char_to_byte :: "char \<Rightarrow> byte" where
  "char_to_byte c = of_char c"

definition go_string :: "slice \<Rightarrow> string" where
  "go_string b = map byte_to_char (elems b)"

section \<open>The TLS record parser\<close>

record TLSHeader =
  Type :: byte
  Version :: "16 word"

record TLSRecord =
  Header :: TLSHeader
  Body :: slice

datatype io_error = EOF | IOFailure string

text \<open>
  The errors of the package: the two sentinels, and the read error of the connection
  wrapped by \<open>fmt.Errorf("failed to read from connection: %w", readErr)\<close>. The errors a
  connection returns from \<open>Read\<close> are those of the operating system and the network
  (\<open>io.EOF\<close>, a timeout, a reset); they are never the package's own sentinels.
\<close>

datatype error = ReadMore | NotTLS | ReadFailed io_error

fun errors_Is :: "error \<Rightarrow> error \<Rightarrow> bool" where
  "errors_Is e target = (e = target)"

definition TLSRecord_zero :: TLSRecord where
  "TLSRecord_zero = \<lparr>Header = \<lparr>Type = 0, Version = 0\<rparr>, Body = Slice [] []\<rparr>"

definition parseTLSHandshake :: "slice \<Rightarrow> (TLSRecord \<times> error option) go" where
  "parseTLSHandshake buf =
     (case index buf 0 of Panic \<Rightarrow> Panic | Ret b0 \<Rightarrow>
      if b0 \<noteq> 22 then Ret (TLSRecord_zero, Some NotTLS)
      else
       (case Uint16_at buf 1 of Panic \<Rightarrow> Panic | Ret version \<Rightarrow>
        (case Uint16_at buf 3 of Panic \<Rightarrow> Panic | Ret rsize \<Rightarrow>
         if version \<noteq> 0x0301 \<and> version \<noteq> 0x0302 \<and> version \<noteq> 0x0303 \<and> version \<noteq> 0x0304
         then Ret (TLSRecord_zero, Some NotTLS)
         else if int (unat (rsize + 5)) > slice_len buf
         then Ret (TLSRecord_zero, Some ReadMore)
         else
          (case subslice buf 5 (int (unat (rsize + 5))) of Panic \<Rightarrow> Panic | Ret body \<Rightarrow>
           Ret (\<lparr>Header = \<lparr>Type = 22, Version = version\<rparr>, Body = body\<rparr>, None)))))"

text \<open>
  The only caller passes \<open>peekedBytes.Bytes()\<close>, the contents of a \<open>bytes.Buffer\<close>
  that has only been written to. The standard library keeps that buffer \<open>nil\<close> until the
  first non-empty write, then allocates at least \<open>smallBufferSize = 64\<close> bytes, zeroed
  beyond the contents. Capacity beyond 64 bytes is left out: no read of the parser
  reaches it.
\<close>

definition smallBufferSize :: nat where
  "smallBufferSize = 64"

definition Bytes :: "byte list \<Rightarrow> slice" where
  "Bytes pb = (if pb = [] then Slice [] []
               else Slice pb (replicate (smallBufferSize - length pb) 0))"

section \<open>Extracting the server name\<close>

text \<open>
  The inner loop of \<open>SNI\<close> over the name list, \<open>for n < pos-3\<close>. The result
  \<open>Some s\<close> is a \<open>return s\<close> out of \<open>SNI\<close>, \<open>None\<close> is the loop running to its end.
\<close>

function names_loop :: "slice \<Rightarrow> int \<Rightarrow> int \<Rightarrow> int \<Rightarrow> string option go" where
  "names_loop body n pos end =
     (if n < pos - 3 then
        (case index body n of Panic \<Rightarrow> Panic | Ret nameType \<Rightarrow>
         (case Uint16_at body (n + 1) of Panic \<Rightarrow> Panic | Ret ns \<Rightarrow>
          (let nameSize = int (unat ns); n' = n + 3 in
           if nameType = 0 then
             (if n' + nameSize > end then Ret (Some [])
              else (case subslice body n' (n' + nameSize) of Panic \<Rightarrow> Panic
                    | Ret name \<Rightarrow> Ret (Some (go_string name))))
           else names_loop body n' pos end)))
      else Ret None)"
  by pat_completeness auto
termination
  by (relation "measure (\<lambda>(body, n, pos, end). nat (pos - 3 - n))") auto

declare names_loop.simps [simp del]

text \<open>The outer loop over the extensions, \<open>for pos+4 < end\<close>.\<close>

function ext_loop :: "slice \<Rightarrow> int \<Rightarrow> int \<Rightarrow> string go" where
  "ext_loop body pos end =
     (if pos + 4 < end then
        (case Uint16_at body pos of Panic \<Rightarrow> Panic | Ret extType \<Rightarrow>
         (case Uint16_at body (pos + 2) of Panic \<Rightarrow> Panic | Ret es \<Rightarrow>
          (let extSize = int (unat es); pos1 = pos + 4 in
           if extType = 0 then
             (if pos1 > end - 2 then Ret []
              else
               (case Uint16_at body pos1 of Panic \<Rightarrow> Panic | Ret nl \<Rightarrow>
                (let namesLength = int (unat nl); n = pos1 + 2; pos2 = pos1 + 2 + namesLength in
                 if pos2 > end then Ret []
                 else
                  (case names_loop body n pos2 end of Panic \<Rightarrow> Panic
                   | Ret (Some name) \<Rightarrow> Ret name
                   | Ret None \<Rightarrow> ext_loop body pos2 end))))
           else ext_loop body (pos1 + extSize) end)))
      else Ret [])"
  by pat_completeness auto
termination
  by (relation "measure (\<lambda>(body, pos, end). nat (end - pos))")
     (auto simp del: of_nat_unat)

declare ext_loop.simps [simp del]

definition SNI :: "TLSRecord \<Rightarrow> string go" where
  "SNI r =
     (let body = Body r; pos0 = 1 + 3 + 2 + 32; end0 = slice_len body in
      if pos0 > end0 - 1 then Ret []
      else
       (case index body pos0 of Panic \<Rightarrow> Panic | Ret sessionIdSize \<Rightarrow>
        (let pos1 = pos0 + (1 + int (unat sessionIdSize)) in
         if pos1 > end0 - 2 then Ret []
         else
          (case Uint16_at body pos1 of Panic \<Rightarrow> Panic | Ret cipherSuiteSize \<Rightarrow>
           (let pos2 = pos1 + (2 + int (unat cipherSuiteSize)) in
            if pos2 > end0 - 1 then Ret []
            else
             (case index body pos2 of Panic \<Rightarrow> Panic | Ret compressionTypeSize \<Rightarrow>
              (let pos3 = pos2 + (1 + int (unat compressionTypeSize)) in
               if pos3 > end0 - 2 then Ret []
               else
                (case Uint16_at body pos3 of Panic \<Rightarrow> Panic | Ret es \<Rightarrow>
                 (let extensionsSize = int (unat es); pos4 = pos3 + 2 in
                  if pos4 + extensionsSize > end0 then Ret []
                  else ext_loop body pos4 (pos4 + extensionsSize))))))))))"

text \<open>
  Where the extensions block starts and ends according to the four length fields in front
  of it (session id, cipher suites, compression methods, extensions), read from the bytes
  of a body; \<open>None\<close> when the body ends before one of these fields.
\<close>

definition extensions_block :: "byte list \<Rightarrow> (int \<times> int) option" where
  "extensions_block b =
     (let n = int (length b) in
      if n < 39 then None
      else
       (let p1 = 39 + int (unat (b ! 38)) in
        if n < p1 + 2 then None
        else
         (let p2 = p1 + 2 + int (unat (be16 (b ! nat p1) (b ! nat (p1 + 1)))) in
          if n < p2 + 1 then None
          else
           (let p3 = p2 + 1 + int (unat (b ! nat p2)) in
            if n < p3 + 2 then None
            else Some (p3 + 2, p3 + 2 + int (unat (be16 (b ! nat p3) (b ! nat (p3 + 1)))))))))"

text \<open>
  The positions at which the loop over the extensions, started at \<open>start\<close>, begins an
  iteration: the start, the position behind an extension of another type that it skips, and
  the position behind the name list of a \<open>server_name\<close> extension in which the loop over
  the names found no host name.
\<close>

inductive ext_reached :: "slice \<Rightarrow> int \<Rightarrow> int \<Rightarrow> int \<Rightarrow> bool" for body :: slice and "end" :: int
  where
  first: "ext_reached body end start start"
| skipped: "ext_reached body end start pos \<Longrightarrow> pos + 4 < end \<Longrightarrow>
     Uint16_at body pos = Ret extType \<Longrightarrow> extType \<noteq> 0 \<Longrightarrow> Uint16_at body (pos + 2) = Ret es \<Longrightarrow>
     ext_reached body end start (pos + 4 + int (unat es))"
| no_host_name: "ext_reached body end start pos \<Longrightarrow> pos + 4 < end \<Longrightarrow>
     Uint16_at body pos = Ret 0 \<Longrightarrow> Uint16_at body (pos + 2) = Ret es \<Longrightarrow> pos + 4 \<le> end - 2 \<Longrightarrow>
     Uint16_at body (pos + 4) = Ret nl \<Longrightarrow> pos + 4 + 2 + int (unat nl) \<le> end \<Longrightarrow>
     names_loop body (pos + 4 + 2) (pos + 4 + 2 + int (unat nl)) end = Ret None \<Longrightarrow>
     ext_reached body end start (pos + 4 + 2 + int (unat nl))"

text \<open>
  The positions at which the loop over the names, started at \<open>start\<close>, begins an
  iteration: the start, and three bytes behind an entry of a name type other than 0.
\<close>

inductive name_reached :: "slice \<Rightarrow> int \<Rightarrow> int \<Rightarrow> int \<Rightarrow> bool" for body :: slice and pos :: int
  where
  first: "name_reached body pos start start"
| other_type: "name_reached body pos start n \<Longrightarrow> n < pos - 3 \<Longrightarrow> index body n = Ret nameType \<Longrightarrow>
     nameType \<noteq> 0 \<Longrightarrow> Uint16_at body (n + 1) = Ret ns \<Longrightarrow> name_reached body pos start (n + 3)"

subsection \<open>Well-formed bodies\<close>

text \<open>
  The layout of a ClientHello body, to state what \<open>SNI\<close> finds in a well-formed one:
  38 fixed bytes (handshake header, client version, random), the session id, the cipher
  suites and the compression methods, each behind its length, then the extensions behind
  their total length. An extension is its type, the length of its data and the data; the
  data of \<open>server_name\<close> is a list of entries behind its length, an entry being a name
  type, the length of the name and the name.
\<close>

definition u16_bytes :: "nat \<Rightarrow> byte list" where
  "u16_bytes n = [word_of_nat (n div 256), word_of_nat (n mod 256)]"

definition encode_ext :: "16 word \<times> byte list \<Rightarrow> byte list" where
  "encode_ext e = u16_bytes (unat (fst e)) @ u16_bytes (length (snd e)) @ snd e"

definition encode_name :: "byte \<times> byte list \<Rightarrow> byte list" where
  "encode_name e = fst e # u16_bytes (length (snd e)) @ snd e"

definition server_name_data :: "(byte \<times> byte list) list \<Rightarrow> byte list" where
  "server_name_data entries =
     u16_bytes (length (concat (map encode_name entries))) @ concat (map encode_name entries)"

definition hello_body ::
  "byte list \<Rightarrow> byte list \<Rightarrow> byte list \<Rightarrow> byte list \<Rightarrow> (16 word \<times> byte list) list \<Rightarrow> byte list"
  where
  "hello_body fixed sid suites methods exts =
     fixed @ [word_of_nat (length sid)] @ sid @ u16_bytes (length suites) @ suites @
     [word_of_nat (length methods)] @ methods @
     u16_bytes (length (concat (map encode_ext exts))) @ concat (map encode_ext exts)"

section \<open>The peeker\<close>

text \<open>
  An \<open>io.Reader\<close> is the sequence of the results of its \<open>Read\<close> calls: the bytes
  stored in the window and the error. The position in that sequence is the state of the
  reader; \<open>peekClientHello\<close> returns it with its results.
\<close>

type_synonym reader = "nat \<Rightarrow> byte list \<times> io_error option"

type_synonym peeked = "string \<times> byte list \<times> error option"

text \<open>
  The loop \<open>for err != nil && errors.Is(err, ReadMore)\<close> with its variables: the
  number \<open>i\<close> of reads done, the contents \<open>pb\<close> of \<open>peekedBytes\<close>, \<open>tls\<close> and
  \<open>err\<close>. The window \<open>inBuffer\<close> has 1024 bytes, and \<open>inBuffer[:n]\<close> panics
  for a larger \<open>n\<close>. A run that never leaves the loop is \<open>None\<close>.
\<close>

partial_function (option) peek_loop ::
  "reader \<Rightarrow> nat \<Rightarrow> byte list \<Rightarrow> TLSRecord \<Rightarrow> error option \<Rightarrow> (peeked \<times> nat) go option" where
  "peek_loop rd i pb tls err =
     (if err \<noteq> None \<and> errors_Is (the err) ReadMore then
        (case rd i of (chunk, readErr) \<Rightarrow>
          if 1024 < length chunk then Some Panic
          else
           (let pb' = pb @ chunk in
            if readErr \<noteq> None \<and>
               (\<not> (readErr = Some EOF) \<or> \<not> errors_Is (the err) ReadMore)
            then Some (Ret (([], pb', Some (ReadFailed (the readErr))), Suc i))
            else
             (case parseTLSHandshake (Bytes pb') of
                Panic \<Rightarrow> Some Panic
              | Ret (tls', err') \<Rightarrow> peek_loop rd (Suc i) pb' tls' err')))
      else
        (case SNI tls of
           Panic \<Rightarrow> Some Panic
         | Ret sni \<Rightarrow> Some (Ret ((sni, pb, err), i))))"

declare peek_loop.simps [code]

definition peekClientHello :: "reader \<Rightarrow> (peeked \<times> nat) go option" where
  "peekClientHello rd = peek_loop rd 0 [] TLSRecord_zero (Some ReadMore)"

text \<open>
  The bytes the reads number \<open>i\<close> to \<open>k - 1\<close> of a reader deliver, in order.
\<close>

definition chunks :: "reader \<Rightarrow> nat \<Rightarrow> nat \<Rightarrow> byte list" where
  "chunks rd i k = concat (map (\<lambda>j. fst (rd j)) [i..<k])"

text \<open>
  The peeker is still reading after \<open>k\<close> reads: each of them filled the window with
  no error or with \<open>io.EOF\<close>, and left the parser asking for more.
\<close>

definition still_reading :: "reader \<Rightarrow> nat \<Rightarrow> bool" where
  "still_reading rd k =
     (\<forall>j<k. length (fst (rd j)) \<le> 1024 \<and> (snd (rd j) = None \<or> snd (rd j) = Some EOF) \<and>
        (case parseTLSHandshake (Bytes (chunks rd 0 (Suc j))) of
           Panic \<Rightarrow> False
         | Ret (tls, err) \<Rightarrow> err = Some ReadMore))"

text \<open>
  Read number \<open>k\<close> ends the peeking: it fails with an error other than \<open>io.EOF\<close>,
  or the parser, given the bytes of the reads up to it, gives a verdict other than
  \<open>ReadMore\<close>.
\<close>

definition decisive :: "reader \<Rightarrow> nat \<Rightarrow> bool" where
  "decisive rd k =
     (length (fst (rd k)) \<le> 1024 \<and>
      (case snd (rd k) of
         Some e \<Rightarrow> e \<noteq> EOF \<or>
           (case parseTLSHandshake (Bytes (chunks rd 0 (Suc k))) of
              Panic \<Rightarrow> False | Ret (tls, err) \<Rightarrow> err \<noteq> Some ReadMore)
       | None \<Rightarrow>
           (case parseTLSHandshake (Bytes (chunks rd 0 (Suc k))) of
              Panic \<Rightarrow> False | Ret (tls, err) \<Rightarrow> err \<noteq> Some ReadMore)))"

section \<open>The endpoint table\<close>

text \<open>
  The patterns are compiled by Go's \<open>regexp\<close> package. Its syntax trees are modelled
  with the operators of \<open>regexp/syntax\<close> that the patterns below need, and matching by
  derivatives: \<open>accepts r s\<close> holds when \<open>r\<close> matches the whole of \<open>s\<close>. Patterns and
  host names are matched byte by byte, which is Go's matching on ASCII text.
\<close>

datatype regexp =
    NoMatch
  | EmptyMatch
  | Literal char
  | AnyCharNotNL
  | Concat regexp regexp
  | Alternate regexp regexp
  | Star regexp

fun nullable :: "regexp \<Rightarrow> bool" where
  "nullable NoMatch = False"
| "nullable EmptyMatch = True"
| "nullable (Literal c) = False"
| "nullable AnyCharNotNL = False"
| "nullable (Concat r s) = (nullable r \<and> nullable s)"
| "nullable (Alternate r s) = (nullable r \<or> nullable s)"
| "nullable (Star r) = True"

fun deriv :: "char \<Rightarrow> regexp \<Rightarrow> regexp" where
  "deriv c NoMatch = NoMatch"
| "deriv c EmptyMatch = NoMatch"
| "deriv c (Literal d) = (if c = d then EmptyMatch else NoMatch)"
| "deriv c AnyCharNotNL = (if c = CHR 0x0A then NoMatch else EmptyMatch)"
| "deriv c (Concat r s) =
     (if nullable r then Alternate (Concat (deriv c r) s) (deriv c s)
      else Concat (deriv c r) s)"
| "deriv c (Alternate r s) = Alternate (deriv c r) (deriv c s)"
| "deriv c (Star r) = Concat (deriv c r) (Star r)"

fun accepts :: "regexp \<Rightarrow> string \<Rightarrow> bool" where
  "accepts r [] = nullable r"
| "accepts r (c # cs) = accepts (deriv c r) cs"

text \<open>
  What it means for a regular expression to match a whole string, stated without
  derivatives; \<open>accepts\<close> computes it.
\<close>

inductive matches :: "regexp \<Rightarrow> string \<Rightarrow> bool" where
  EmptyMatch: "matches EmptyMatch []"
| Literal: "matches (Literal c) [c]"
| AnyCharNotNL: "c \<noteq> CHR 0x0A \<Longrightarrow> matches AnyCharNotNL [c]"
| Concat: "matches r u \<Longrightarrow> matches s v \<Longrightarrow> matches (Concat r s) (u @ v)"
| Alternate1: "matches r u \<Longrightarrow> matches (Alternate r s) u"
| Alternate2: "matches s u \<Longrightarrow> matches (Alternate r s) u"
| Star0: "matches (Star r) []"
| StarStep: "matches r u \<Longrightarrow> matches (Star r) v \<Longrightarrow> matches (Star r) (u @ v)"

text \<open>
  \<open>(*Regexp).MatchString(s)\<close> reports whether \<open>s\<close> contains any match of the
  regular expression: some prefix of some suffix of \<open>s\<close> is accepted.
\<close>

definition MatchString :: "regexp \<Rightarrow> string \<Rightarrow> bool" where
  "MatchString re s = list_ex (\<lambda>t. list_ex (accepts re) (prefixes t)) (suffixes s)"

text \<open>
  \<open>regexp.MustCompile\<close> on the fragment of the syntax that is modelled: ASCII
  literals, an escaped metacharacter, \<open>.\<close>, and one \<open>*\<close> after any of them. The
  result is \<open>None\<close> for every other pattern, those Go rejects (where \<open>MustCompile\<close>
  panics) and those that need more of the syntax.
\<close>

datatype token = Atom regexp | Repeat

definition meta_chars :: string where
  "meta_chars = [CHR 0x5C, CHR ''.'', CHR ''+'', CHR ''*'', CHR ''?'', CHR ''('', CHR '')'',
                 CHR ''|'', CHR ''['', CHR '']'', CHR ''{'', CHR ''}'', CHR ''^'', CHR ''$'']"

fun tokens :: "string \<Rightarrow> token list option" where
  "tokens [] = Some []"
| "tokens (c # cs) =
     (if c = CHR 0x5C then
        (case cs of
           [] \<Rightarrow> None
         | d # ds \<Rightarrow>
             if d \<in> set meta_chars then map_option ((#) (Atom (Literal d))) (tokens ds)
             else None)
      else if c = CHR ''.'' then map_option ((#) (Atom AnyCharNotNL)) (tokens cs)
      else if c = CHR ''*'' then map_option ((#) Repeat) (tokens cs)
      else if c \<in> set meta_chars \<or> 128 \<le> (of_char c :: nat) then None
      else map_option ((#) (Atom (Literal c))) (tokens cs))"

fun build :: "token list \<Rightarrow> regexp option" where
  "build [] = Some EmptyMatch"
| "build (Repeat # ts) = None"
| "build (Atom a # Repeat # Repeat # ts) = None"
| "build (Atom a # Repeat # ts) = map_option (Concat (Star a)) (build ts)"
| "build (Atom a # ts) = map_option (Concat a) (build ts)"

definition MustCompile :: "string \<Rightarrow> regexp option" where
  "MustCompile str = (case tokens str of None \<Rightarrow> None | Some ts \<Rightarrow> build ts)"

record EndpointEntry =
  Domain' :: string
  Address :: string
  regex :: regexp

text \<open>\<open>strings.LastIndex(line, ",")\<close> for a one-byte separator: -1 when it is absent.\<close>

fun LastIndex_from :: "string \<Rightarrow> char \<Rightarrow> int \<Rightarrow> int \<Rightarrow> int" where
  "LastIndex_from [] c i found = found"
| "LastIndex_from (x # xs) c i found = LastIndex_from xs c (i + 1) (if x = c then i else found)"

definition LastIndex :: "string \<Rightarrow> char \<Rightarrow> int" where
  "LastIndex s c = LastIndex_from s c 0 (- 1)"

text \<open>
  The loop of \<open>readFile\<close> over the lines of the file, appending to the empty table of
  \<open>NewEndpointsDB\<close>.
\<close>

fun readFile :: "string list \<Rightarrow> EndpointEntry list option" where
  "readFile [] = Some []"
| "readFile (line # lines) =
     (let ind = LastIndex line (CHR '','') in
      if ind = - 1 then readFile lines
      else
       (case MustCompile (take (nat ind) line) of
          None \<Rightarrow> None
        | Some re \<Rightarrow>
            map_option
              ((#) \<lparr>Domain' = take (nat ind) line, Address = drop (nat (ind + 1)) line,
                    regex = re\<rparr>)
              (readFile lines)))"

datatype get_error = NotFound string

fun Get :: "EndpointEntry list \<Rightarrow> string \<Rightarrow> get_error + EndpointEntry" where
  "Get [] endpoint = Inl (NotFound endpoint)"
| "Get (ep # endpoints) endpoint =
     (if MatchString (regex ep) endpoint then Inr ep else Get endpoints endpoint)"

section \<open>The connection handler\<close>

text \<open>
  What the handler needs of a connection: the results of its reads and of the two calls
  of \<open>SetReadDeadline\<close>. The handler is followed up to the point where the two copying
  goroutines start; \<open>lookups\<close> lists the host names \<open>Get\<close> was called with.
\<close>

record conn =
  reads :: reader
  arm_deadline :: "io_error option"
  clear_deadline :: "io_error option"

datatype outcome =
    SetDeadlineError io_error
  | ReadingError error
  | RemoveDeadlineError io_error
  | RoutingError string get_error
  | DialError string
  | Relay EndpointEntry "byte list option" nat

record handled =
  lookups :: "string list"
  outcome :: outcome

text \<open>
  The part of \<open>HandleConnection\<close> after the host name is known, the same in both
  versions of the handler: \<open>dial\<close> tells whether \<open>net.Dial\<close> reaches an address,
  \<open>pb\<close> is the buffer given to \<open>io.MultiReader\<close> (\<open>None\<close> for a nil pointer) and
  \<open>k\<close> the position of the connection's reader.
\<close>

definition route ::
  "EndpointEntry list \<Rightarrow> (string \<Rightarrow> bool) \<Rightarrow> conn \<Rightarrow> string \<Rightarrow> byte list option \<Rightarrow> nat \<Rightarrow> handled"
  where
  "route endpointsDB dial c domainName pb k =
     (case clear_deadline c of
        Some e \<Rightarrow> \<lparr>lookups = [], outcome = RemoveDeadlineError e\<rparr>
      | None \<Rightarrow>
         (case Get endpointsDB domainName of
            Inl e \<Rightarrow> \<lparr>lookups = [domainName], outcome = RoutingError domainName e\<rparr>
          | Inr ep \<Rightarrow>
              if dial (Address ep)
              then \<lparr>lookups = [domainName], outcome = Relay ep pb k\<rparr>
              else \<lparr>lookups = [domainName], outcome = DialError (Address ep)\<rparr>))"

definition HandleConnection ::
  "EndpointEntry list \<Rightarrow> (string \<Rightarrow> bool) \<Rightarrow> conn \<Rightarrow> handled go option" where
  "HandleConnection endpointsDB dial c =
     (case arm_deadline c of
        Some e \<Rightarrow> Some (Ret \<lparr>lookups = [], outcome = SetDeadlineError e\<rparr>)
      | None \<Rightarrow>
         (case peekClientHello (reads c) of
            None \<Rightarrow> None
          | Some Panic \<Rightarrow> Some Panic
          | Some (Ret ((sni, pb, err), k)) \<Rightarrow>
              (case err of
                 Some e \<Rightarrow>
                   if errors_Is e NotTLS
                   then Some (Ret (route endpointsDB dial c ''*'' (Some pb) k))
                   else Some (Ret \<lparr>lookups = [], outcome = ReadingError e\<rparr>)
               | None \<Rightarrow> Some (Ret (route endpointsDB dial c sni (Some pb) k)))))"

subsection \<open>The handler that lets \<open>crypto/tls\<close> read the hello\<close>





subsection \<open>Comparing the two handlers\<close>



section \<open>Inputs for the examples\<close>

text \<open>
  A ClientHello up to its extensions: the handshake header, the client version, 32
  random bytes, an empty session id, one cipher suite and one compression method.
\<close>

definition hello_prefix :: "byte list" where
  "hello_prefix =
     [1, 0, 0, 63, 3, 3] @
     [0, 0, 0, 0, 0, 0, 0, 0, 0, 0, 0, 0, 0, 0, 0, 0,
      0, 0, 0, 0, 0, 0, 0, 0, 0, 0, 0, 0, 0, 0, 0, 0] @
     [0] @ [0, 2, 19, 1] @ [1, 0]"

text \<open>One \<open>server_name\<close> extension with the single entry \<open>example.com\<close>.\<close>

definition example_com_body :: "byte list" where
  "example_com_body =
     hello_prefix @ [0, 20] @ [0, 0, 0, 16, 0, 14, 0, 0, 11] @ map char_to_byte ''example.com''"

definition example_com_record :: "byte list" where
  "example_com_record = [22, 3, 1, 0, 67] @ example_com_body"

text \<open>
  A \<open>server_name\<close> extension with two entries: one of name type 1 with the name
  \<open>a\<close>, then \<open>example.com\<close> with name type 0.
\<close>

definition two_entry_body :: "byte list" where
  "two_entry_body =
     hello_prefix @ [0, 24] @ [0, 0, 0, 20, 0, 18, 1, 0, 1, 97, 0, 0, 11] @
     map char_to_byte ''example.com''"

text \<open>
  A \<open>server_name\<close> extension that declares 65535 bytes of data in an extensions
  block of 10 bytes, with the single entry \<open>A\<close>.
\<close>

definition long_extension_body :: "byte list" where
  "long_extension_body =
     hello_prefix @ [0, 10] @ [0, 0, 255, 255, 0, 4, 0, 0, 1] @ map char_to_byte ''A''"

text \<open>
  An extension of type 5 that declares 65535 bytes of data in an extensions block of 6
  bytes; a \<open>server_name\<close> extension whose list of names declares 65535 bytes; and a
  \<open>server_name\<close> extension whose host name declares 3 bytes of which only the first lies
  inside the extensions block, the other two being the last bytes of the body.
\<close>

definition long_skipped_body :: "byte list" where
  "long_skipped_body = hello_prefix @ [0, 6] @ [0, 5, 255, 255, 0, 0]"

definition long_list_body :: "byte list" where
  "long_list_body = hello_prefix @ [0, 7] @ [0, 0, 0, 2, 255, 255, 0]"

definition slack_name_body :: "byte list" where
  "slack_name_body = hello_prefix @ [0, 10] @ [0, 0, 0, 6, 0, 4, 0, 0, 3, 65] @ [66, 67]"

definition record_of :: "byte list \<Rightarrow> TLSRecord" where
  "record_of body = \<lparr>Header = \<lparr>Type = 22, Version = 0x0303\<rparr>, Body = Slice body []\<rparr>"

text \<open>Readers: the hello in three reads; an empty record; plain text; a reset.\<close>

definition reader_hello :: reader where
  "reader_hello i =
     (if i = 0 then (take 3 example_com_record, None)
      else if i = 1 then (take 10 (drop 3 example_com_record), None)
      else (drop 13 example_com_record, None))"

definition reader_no_name :: reader where
  "reader_no_name i = ([22, 3, 3, 0, 0], None)"

definition reader_plain :: reader where
  "reader_plain i = (if i = 0 then ([71, 69, 84, 32, 47], None) else ([], Some EOF))"

definition reader_reset :: reader where
  "reader_reset i =
     (if i = 0 then ([22, 3, 1, 0, 67], None)
      else if i = 1 then ([1, 0, 0], Some (IOFailure ''connection reset by peer''))
      else ([], Some EOF))"

text \<open>The hello for \<open>example.com\<close> in two reads, the first of a single byte.\<close>

definition reader_split :: reader where
  "reader_split i =
     (if i = 0 then (take 1 example_com_record, None) else (drop 1 example_com_record, None))"

text \<open>A reader at its end after the header of a record of ten bytes.\<close>

definition reader_closed :: reader where
  "reader_closed i = (if i = 0 then ([22, 3, 1, 0, 10], None) else ([], Some EOF))"


definition conn_of :: "reader \<Rightarrow> conn" where
  "conn_of rd = \<lparr>reads = rd, arm_deadline = None, clear_deadline = None\<rparr>"

text \<open>
  The table of the file with the lines \<open>a\.com,10.0.0.1:443\<close> and
  \<open>.*,10.0.0.2:443\<close>.
\<close>

definition a_com_pattern :: string where
  "a_com_pattern = [CHR ''a'', CHR 0x5C, CHR ''.'', CHR ''c'', CHR ''o'', CHR ''m'']"

definition endpoints_file :: "string list" where
  "endpoints_file = [a_com_pattern @ '',10.0.0.1:443'', ''.*,10.0.0.2:443'']"

definition a_com_entry :: EndpointEntry where
  "a_com_entry =
     \<lparr>Domain' = a_com_pattern, Address = ''10.0.0.1:443'',
      regex = Concat (Literal (CHR ''a'')) (Concat (Literal (CHR ''.''))
               (Concat (Literal (CHR ''c'')) (Concat (Literal (CHR ''o''))
                 (Concat (Literal (CHR ''m'')) EmptyMatch))))\<rparr>"

definition wildcard_entry :: EndpointEntry where
  "wildcard_entry =
     \<lparr>Domain' = ''.*'', Address = ''10.0.0.2:443'', regex = Concat (Star AnyCharNotNL) EmptyMatch\<rparr>"



section \<open>Reading from slices\<close>

lemma take2_drop:
  "Suc n < length xs \<Longrightarrow> take 2 (drop n xs) = [xs ! n, xs ! Suc n]"
  by (simp add: numeral_2_eq_2 take_Suc_conv_app_nth Cons_nth_drop_Suc [symmetric] hd_drop_conv_nth)

lemma slice_len_le_cap: "slice_len s \<le> slice_cap s"
  by (simp add: slice_len_def slice_cap_def)

lemma Uint16_at_eq:
  assumes "0 \<le> lo" "lo + 2 \<le> slice_cap s"
  shows "Uint16_at s lo =
         Ret (be16 ((elems s @ spare s) ! nat lo) ((elems s @ spare s) ! nat (lo + 1)))"
proof -
  have "Suc (nat lo) < length (elems s @ spare s)"
    using assms by (simp add: slice_cap_def)
  then have "take 2 (drop (nat lo) (elems s @ spare s)) =
        [(elems s @ spare s) ! nat lo, (elems s @ spare s) ! Suc (nat lo)]"
    by (rule take2_drop)
  moreover have "nat (lo + 1) = Suc (nat lo)"
    using assms by simp
  ultimately show ?thesis
    using assms by (simp add: Uint16_at_def subslice_def Uint16_def)
qed

lemma Uint16_at_in:
  assumes "0 \<le> lo" "lo + 2 \<le> slice_len s"
  shows "Uint16_at s lo = Ret (be16 (elems s ! nat lo) (elems s ! nat (lo + 1)))"
proof -
  have "lo + 2 \<le> slice_cap s"
    using assms slice_len_le_cap [of s] by simp
  with assms have "Uint16_at s lo =
         Ret (be16 ((elems s @ spare s) ! nat lo) ((elems s @ spare s) ! nat (lo + 1)))"
    by (intro Uint16_at_eq)
  moreover have "nat lo < length (elems s)" "nat (lo + 1) < length (elems s)"
    using assms by (simp_all add: slice_len_def)
  ultimately show ?thesis
    by (simp add: nth_append)
qed

lemma Uint16_at_ex: "0 \<le> lo \<Longrightarrow> lo + 2 \<le> slice_len s \<Longrightarrow> \<exists>x. Uint16_at s lo = Ret x"
  by (simp add: Uint16_at_in)

lemma index_in: "0 \<le> i \<Longrightarrow> i < slice_len s \<Longrightarrow> index s i = Ret (elems s ! nat i)"
  by (simp add: index_def)

lemma index_ex: "0 \<le> i \<Longrightarrow> i < slice_len s \<Longrightarrow> \<exists>x. index s i = Ret x"
  by (simp add: index_def)

lemma subslice_in:
  assumes "0 \<le> lo" "lo \<le> hi" "hi \<le> slice_len s"
  shows "subslice s lo hi =
         Ret (Slice (take (nat (hi - lo)) (drop (nat lo) (elems s)))
                    (drop (nat hi) (elems s) @ spare s))"
  using assms slice_len_le_cap [of s]
  by (simp add: subslice_def slice_len_def)

lemma elems_Bytes [simp]: "elems (Bytes pb) = pb"
  by (simp add: Bytes_def)

lemma slice_len_Bytes [simp]: "slice_len (Bytes pb) = int (length pb)"
  by (simp add: slice_len_def)

lemma slice_cap_Bytes: "pb \<noteq> [] \<Longrightarrow> 64 \<le> slice_cap (Bytes pb)"
  by (simp add: Bytes_def slice_cap_def smallBufferSize_def)

section \<open>The verdicts of the record parser\<close>

text \<open>
  A first byte other than 22 gives \<open>NotTLS\<close> on every slice. A version other than
  the four of TLS 1.0 to 1.3 gives \<open>NotTLS\<close> on every slice whose capacity covers the
  five bytes of the header, which are read before the version is compared.
\<close>

lemma NotTLS_on_first_byte:
  assumes "1 \<le> slice_len buf" "elems buf ! 0 \<noteq> 22"
  shows "parseTLSHandshake buf = Ret (TLSRecord_zero, Some NotTLS)"
  using assms by (simp add: parseTLSHandshake_def index_def)

lemma NotTLS_on_version:
  assumes "3 \<le> slice_len buf" "5 \<le> slice_cap buf"
    and "be16 (elems buf ! 1) (elems buf ! 2) \<notin> {0x0301, 0x0302, 0x0303, 0x0304}"
  shows "parseTLSHandshake buf = Ret (TLSRecord_zero, Some NotTLS)"
proof (cases "elems buf ! 0 = 22")
  case False
  with assms(1) show ?thesis
    by (intro NotTLS_on_first_byte) simp_all
next
  case True
  from assms(1) have "Uint16_at buf 1 = Ret (be16 (elems buf ! nat 1) (elems buf ! nat (1 + 1)))"
    by (intro Uint16_at_in) simp_all
  then have version: "Uint16_at buf 1 = Ret (be16 (elems buf ! 1) (elems buf ! 2))"
    by simp
  obtain rsize where rsize: "Uint16_at buf 3 = Ret rsize"
    using assms(2) by (simp add: Uint16_at_eq)
  from assms(1,3) True version rsize show ?thesis
    by (simp add: parseTLSHandshake_def index_def)
qed

text \<open>
  Claim C7. For every buffer whose first byte is not 22, and for every buffer whose
  version field, bytes 1 and 2 read as a big-endian 16-bit number, is not one of 0x0301,
  0x0302, 0x0303 and 0x0304, \<open>parseTLSHandshake\<close> returns the zero record with
  \<open>NotTLS\<close>: for the first byte on every slice, for the version on every buffer of
  the peeker and on every slice with capacity for the header.
\<close>

theorem parseTLSHandshake_NotTLS:
  "(1 \<le> slice_len buf \<and> elems buf ! 0 \<noteq> 22 \<longrightarrow>
      parseTLSHandshake buf = Ret (TLSRecord_zero, Some NotTLS)) \<and>
   (3 \<le> length pb \<and> be16 (pb ! 1) (pb ! 2) \<notin> {0x0301, 0x0302, 0x0303, 0x0304} \<longrightarrow>
      parseTLSHandshake (Bytes pb) = Ret (TLSRecord_zero, Some NotTLS)) \<and>
   (3 \<le> slice_len buf \<and> 5 \<le> slice_cap buf \<and>
    be16 (elems buf ! 1) (elems buf ! 2) \<notin> {0x0301, 0x0302, 0x0303, 0x0304} \<longrightarrow>
      parseTLSHandshake buf = Ret (TLSRecord_zero, Some NotTLS))"
proof (intro conjI impI)
  assume "1 \<le> slice_len buf \<and> elems buf ! 0 \<noteq> 22"
  then show "parseTLSHandshake buf = Ret (TLSRecord_zero, Some NotTLS)"
    by (intro NotTLS_on_first_byte) simp_all
next
  assume a: "3 \<le> length pb \<and> be16 (pb ! 1) (pb ! 2) \<notin> {0x0301, 0x0302, 0x0303, 0x0304}"
  then have "pb \<noteq> []" by auto
  with a have "3 \<le> slice_len (Bytes pb)" "5 \<le> slice_cap (Bytes pb)"
    using slice_cap_Bytes [of pb] by simp_all
  with a show "parseTLSHandshake (Bytes pb) = Ret (TLSRecord_zero, Some NotTLS)"
    by (intro NotTLS_on_version) simp_all
next
  assume "3 \<le> slice_len buf \<and> 5 \<le> slice_cap buf \<and>
    be16 (elems buf ! 1) (elems buf ! 2) \<notin> {0x0301, 0x0302, 0x0303, 0x0304}"
  then show "parseTLSHandshake buf = Ret (TLSRecord_zero, Some NotTLS)"
    by (intro NotTLS_on_version) simp_all
qed

theorem parseTLSHandshake_NotTLS_witness:
  "parseTLSHandshake (Slice [71] []) = Ret (TLSRecord_zero, Some NotTLS) \<and>
   parseTLSHandshake (Bytes [22, 2, 0]) = Ret (TLSRecord_zero, Some NotTLS) \<and>
   parseTLSHandshake (Slice [22, 3, 0, 0, 0] []) = Ret (TLSRecord_zero, Some NotTLS)"
  using parseTLSHandshake_NotTLS [of "Slice [71] []" "[22, 2, 0]"]
    parseTLSHandshake_NotTLS [of "Slice [22, 3, 0, 0, 0] []"]
  by (simp add: be16_def slice_len_def slice_cap_def)

text \<open>
  A slice of three or four bytes with no spare capacity is not a buffer of the peeker:
  on it the slice expression \<open>buf[3:5]\<close>, evaluated before the version is compared,
  panics.
\<close>

lemma parseTLSHandshake_bare_slice: "parseTLSHandshake (Slice [22, 0, 0] []) = Panic"
  by (simp add: parseTLSHandshake_def index_def slice_len_def Uint16_at_def subslice_def
      slice_cap_def Uint16_def)

text \<open>
  A buffer that holds the five bytes of the header, starts with byte 22 and one of the
  four versions, and declares a body of at most 65530 bytes, gets \<open>ReadMore\<close> as long
  as it is shorter than 5 plus the declared size.
\<close>

lemma ReadMore_on_incomplete_record:
  assumes "5 \<le> length (elems buf)"
    and "elems buf ! 0 = 22"
    and "be16 (elems buf ! 1) (elems buf ! 2) \<in> {0x0301, 0x0302, 0x0303, 0x0304}"
    and "unat (be16 (elems buf ! 3) (elems buf ! 4)) \<le> 65530"
    and "length (elems buf) < 5 + unat (be16 (elems buf ! 3) (elems buf ! 4))"
  shows "parseTLSHandshake buf = Ret (TLSRecord_zero, Some ReadMore)"
proof -
  let ?size = "be16 (elems buf ! 3) (elems buf ! 4)"
  from assms(1) have len: "5 \<le> slice_len buf"
    by (simp add: slice_len_def)
  then have "Uint16_at buf 1 = Ret (be16 (elems buf ! nat 1) (elems buf ! nat (1 + 1)))"
    by (intro Uint16_at_in) simp_all
  then have version: "Uint16_at buf 1 = Ret (be16 (elems buf ! 1) (elems buf ! 2))"
    by simp
  from len have "Uint16_at buf 3 = Ret (be16 (elems buf ! nat 3) (elems buf ! nat (3 + 1)))"
    by (intro Uint16_at_in) simp_all
  then have rsize: "Uint16_at buf 3 = Ret ?size"
    by simp
  have "unat (?size + 5) = unat ?size + 5"
    using assms(4) by (simp add: unat_word_ariths)
  with assms(5) have "slice_len buf < int (unat (?size + 5))"
    by (simp add: slice_len_def del: of_nat_unat)
  with len assms(2,3) version rsize show ?thesis
    by (auto simp add: parseTLSHandshake_def index_def simp del: of_nat_unat)
qed

section \<open>The server name stays inside the body\<close>

lemma sublist_take_drop: "sublist (take n (drop k xs)) xs"
  by (metis append_take_drop_id sublist_appendI sublist_def)

lemma go_string_within:
  "sublist (go_string (Slice (take n (drop k (elems s))) sp)) (go_string s)"
  unfolding go_string_def slice.sel take_map [symmetric] drop_map [symmetric]
  by (rule sublist_take_drop)

text \<open>
  With its positions inside the body, the loop over the names reads inside the body, even
  when the slice has no spare capacity, and a name it returns is a run of bytes of the body.
\<close>

lemma names_loop_safe:
  "0 \<le> n \<Longrightarrow> pos \<le> end \<Longrightarrow> end \<le> slice_len body \<Longrightarrow>
   \<exists>r. names_loop body n pos end = Ret r \<and>
       (\<forall>name. r = Some name \<longrightarrow> sublist name (go_string body))"
proof (induction body n pos "end" rule: names_loop.induct)
  case (1 body n pos "end")
  show ?case
  proof (cases "n < pos - 3")
    case False
    then show ?thesis
      by (subst names_loop.simps) simp
  next
    case True
    with 1(2-4) have i: "index body n = Ret (elems body ! nat n)"
      by (intro index_in) simp_all
    from True 1(2-4) have u: "Uint16_at body (n + 1) =
         Ret (be16 (elems body ! nat (n + 1)) (elems body ! nat (n + 1 + 1)))"
      by (intro Uint16_at_in) simp_all
    let ?ns = "be16 (elems body ! nat (n + 1)) (elems body ! nat (n + 1 + 1))"
    show ?thesis
    proof (cases "elems body ! nat n = 0")
      case zero: True
      show ?thesis
      proof (cases "n + 3 + int (unat ?ns) > end")
        case True
        with \<open>n < pos - 3\<close> i u zero show ?thesis
          by (subst names_loop.simps) (simp add: Let_def del: of_nat_unat)
      next
        case False
        with 1(2-4) have "subslice body (n + 3) (n + 3 + int (unat ?ns)) =
           Ret (Slice (take (nat (n + 3 + int (unat ?ns) - (n + 3))) (drop (nat (n + 3)) (elems body)))
                  (drop (nat (n + 3 + int (unat ?ns))) (elems body) @ spare body))"
          by (intro subslice_in) simp_all
        with False \<open>n < pos - 3\<close> i u zero show ?thesis
          by (subst names_loop.simps) (simp add: Let_def go_string_within del: of_nat_unat)
      qed
    next
      case nonzero: False
      have "\<exists>r. names_loop body (n + 3) pos end = Ret r \<and>
         (\<forall>name. r = Some name \<longrightarrow> sublist name (go_string body))"
        using True i u nonzero 1(2-4)
        by (intro 1(1) [OF True i u refl refl nonzero]) simp_all
      with True i u nonzero show ?thesis
        by (subst names_loop.simps) (simp add: Let_def del: of_nat_unat)
    qed
  qed
qed

lemma ext_loop_safe:
  "0 \<le> pos \<Longrightarrow> end \<le> slice_len body \<Longrightarrow>
   \<exists>name. ext_loop body pos end = Ret name \<and> sublist name (go_string body)"
proof (induction body pos "end" rule: ext_loop.induct)
  case (1 body pos "end")
  show ?case
  proof (cases "pos + 4 < end")
    case False
    then show ?thesis
      by (subst ext_loop.simps) simp
  next
    case True
    let ?t = "be16 (elems body ! nat pos) (elems body ! nat (pos + 1))"
    let ?es = "be16 (elems body ! nat (pos + 2)) (elems body ! nat (pos + 2 + 1))"
    from True 1(3,4) have t: "Uint16_at body pos = Ret ?t"
      by (intro Uint16_at_in) simp_all
    from True 1(3,4) have es: "Uint16_at body (pos + 2) = Ret ?es"
      by (intro Uint16_at_in) simp_all
    show ?thesis
    proof (cases "?t = 0")
      case other: False
      have "\<exists>name. ext_loop body (pos + 4 + int (unat ?es)) end = Ret name \<and>
          sublist name (go_string body)"
        using 1(3,4) by (intro 1(2) [OF True t es refl refl other]) simp_all
      with True t es other show ?thesis
        by (subst ext_loop.simps) (simp add: Let_def del: of_nat_unat)
    next
      case sni: True
      show ?thesis
      proof (cases "pos + 4 > end - 2")
        case True
        with \<open>pos + 4 < end\<close> t es sni show ?thesis
          by (subst ext_loop.simps) (simp add: Let_def del: of_nat_unat)
      next
        case room: False
        let ?nl = "be16 (elems body ! nat (pos + 4)) (elems body ! nat (pos + 4 + 1))"
        from room 1(3,4) have nl: "Uint16_at body (pos + 4) = Ret ?nl"
          by (intro Uint16_at_in) simp_all
        let ?pos2 = "pos + 4 + 2 + int (unat ?nl)"
        show ?thesis
        proof (cases "?pos2 > end")
          case True
          with \<open>pos + 4 < end\<close> t es sni room nl show ?thesis
            by (subst ext_loop.simps) (simp add: Let_def del: of_nat_unat)
        next
          case fits: False
          have "\<exists>r. names_loop body (pos + 4 + 2) ?pos2 end = Ret r \<and>
             (\<forall>name. r = Some name \<longrightarrow> sublist name (go_string body))"
            using fits 1(3,4) by (intro names_loop_safe) simp_all
          then obtain r where r: "names_loop body (pos + 4 + 2) ?pos2 end = Ret r"
            and within: "\<forall>name. r = Some name \<longrightarrow> sublist name (go_string body)"
            by blast
          show ?thesis
          proof (cases r)
            case (Some name)
            with \<open>pos + 4 < end\<close> t es sni room nl fits r within show ?thesis
              by (subst ext_loop.simps) (simp add: Let_def del: of_nat_unat)
          next
            case None
            have "\<exists>name. ext_loop body ?pos2 end = Ret name \<and> sublist name (go_string body)"
              using 1(3,4) r None
              by (intro 1(1) [OF \<open>pos + 4 < end\<close> t es refl refl sni room nl refl refl refl fits]) simp_all
            with \<open>pos + 4 < end\<close> t es sni room nl fits r None show ?thesis
              by (subst ext_loop.simps) (simp add: Let_def del: of_nat_unat)
          qed
        qed
      qed
    qed
  qed
qed

lemma SNI_safe: "\<exists>name. SNI r = Ret name \<and> sublist name (go_string (Body r))"
proof -
  define b where "b = Body r"
  define e where "e = slice_len b"
  have unfold: "Body r = b" "slice_len b = e"
    by (simp_all add: b_def e_def)
  show ?thesis
  proof (cases "38 > e - 1")
    case True
    then show ?thesis by (simp add: SNI_def unfold)
  next
    case a: False
    then obtain sid where sid: "index b 38 = Ret sid"
      using index_ex [of 38 b] by (auto simp: unfold)
    define pos1 where "pos1 = 39 + int (unat sid)"
    have pos1: "38 + (1 + int (unat sid)) = pos1" "0 \<le> pos1"
      by (simp_all add: pos1_def del: of_nat_unat)
    show ?thesis
    proof (cases "pos1 > e - 2")
      case True
      with a sid show ?thesis
        by (simp add: SNI_def Let_def unfold pos1 del: of_nat_unat)
    next
      case b: False
      then obtain cs where cs: "Uint16_at b pos1 = Ret cs"
        using Uint16_at_ex [of pos1 b] pos1 by (auto simp: unfold)
      define pos2 where "pos2 = pos1 + (2 + int (unat cs))"
      have pos2: "pos1 + (2 + int (unat cs)) = pos2" "0 \<le> pos2"
        using pos1(2) by (simp_all add: pos2_def del: of_nat_unat)
      show ?thesis
      proof (cases "pos2 > e - 1")
        case True
        with a sid b cs show ?thesis
          by (simp add: SNI_def Let_def unfold pos1 pos2 del: of_nat_unat)
      next
        case c: False
        then obtain ct where ct: "index b pos2 = Ret ct"
          using index_ex [of pos2 b] pos2 by (auto simp: unfold)
        define pos3 where "pos3 = pos2 + (1 + int (unat ct))"
        have pos3: "pos2 + (1 + int (unat ct)) = pos3" "0 \<le> pos3"
          using pos2(2) by (simp_all add: pos3_def del: of_nat_unat)
        show ?thesis
        proof (cases "pos3 > e - 2")
          case True
          with a sid b cs c ct show ?thesis
            by (simp add: SNI_def Let_def unfold pos1 pos2 pos3 del: of_nat_unat)
        next
          case d: False
          then obtain es where es: "Uint16_at b pos3 = Ret es"
            using Uint16_at_ex [of pos3 b] pos3 by (auto simp: unfold)
          show ?thesis
          proof (cases "pos3 + 2 + int (unat es) > e")
            case True
            with a sid b cs c ct d es show ?thesis
              by (simp add: SNI_def Let_def unfold pos1 pos2 pos3 del: of_nat_unat)
          next
            case fits: False
            have "\<exists>name. ext_loop b (pos3 + 2) (pos3 + 2 + int (unat es)) = Ret name \<and>
                sublist name (go_string b)"
              using fits pos3(2) by (intro ext_loop_safe) (simp_all add: unfold)
            with a sid b cs c ct d es fits show ?thesis
              by (simp add: SNI_def Let_def unfold pos1 pos2 pos3 del: of_nat_unat)
          qed
        qed
      qed
    qed
  qed
qed

text \<open>
  The four length fields in front of the extensions: when one of them runs past the end
  of the body, \<open>SNI\<close> returns the empty name; otherwise it is the loop over the
  extensions, run on the block that they declare.
\<close>

lemma SNI_block_overrun:
  "(case extensions_block (elems (Body r)) of None \<Rightarrow> True | Some (S, E) \<Rightarrow> slice_len (Body r) < E)
   \<Longrightarrow> SNI r = Ret []"
proof -
  assume over: "case extensions_block (elems (Body r)) of None \<Rightarrow> True
    | Some (S, E) \<Rightarrow> slice_len (Body r) < E"
  define b where "b = Body r"
  define e where "e = slice_len b"
  have unfold: "Body r = b" "slice_len b = e" "int (length (elems b)) = e"
    by (simp_all add: b_def e_def slice_len_def)
  show ?thesis
  proof (cases "38 > e - 1")
    case True
    then show ?thesis by (simp add: SNI_def unfold)
  next
    case a: False
    define sid where "sid = elems b ! 38"
    from a have sid: "index b 38 = Ret sid"
      using index_in [of 38 b] by (simp add: unfold sid_def)
    define pos1 where "pos1 = 39 + int (unat sid)"
    have pos1: "38 + (1 + int (unat sid)) = pos1" "39 + int (unat sid) = pos1" "0 \<le> pos1"
      by (simp_all add: pos1_def del: of_nat_unat)
    show ?thesis
    proof (cases "pos1 > e - 2")
      case True
      with a sid show ?thesis
        by (simp add: SNI_def Let_def unfold pos1 del: of_nat_unat)
    next
      case b: False
      define cs where "cs = be16 (elems b ! nat pos1) (elems b ! nat (pos1 + 1))"
      from b have cs: "Uint16_at b pos1 = Ret cs"
        using Uint16_at_in [of pos1 b] pos1 by (simp add: unfold cs_def)
      define pos2 where "pos2 = pos1 + (2 + int (unat cs))"
      have pos2: "pos1 + (2 + int (unat cs)) = pos2" "pos1 + 2 + int (unat cs) = pos2" "0 \<le> pos2"
        using pos1(3) by (simp_all add: pos2_def del: of_nat_unat)
      show ?thesis
      proof (cases "pos2 > e - 1")
        case True
        with a sid b cs show ?thesis
          by (simp add: SNI_def Let_def unfold pos1 pos2 del: of_nat_unat)
      next
        case c: False
        define ct where "ct = elems b ! nat pos2"
        from c have ct: "index b pos2 = Ret ct"
          using index_in [of pos2 b] pos2 by (simp add: unfold ct_def)
        define pos3 where "pos3 = pos2 + (1 + int (unat ct))"
        have pos3: "pos2 + (1 + int (unat ct)) = pos3" "pos2 + 1 + int (unat ct) = pos3" "0 \<le> pos3"
          using pos2(3) by (simp_all add: pos3_def del: of_nat_unat)
        show ?thesis
        proof (cases "pos3 > e - 2")
          case True
          with a sid b cs c ct show ?thesis
            by (simp add: SNI_def Let_def unfold pos1 pos2 pos3 del: of_nat_unat)
        next
          case d: False
          define es where "es = be16 (elems b ! nat pos3) (elems b ! nat (pos3 + 1))"
          from d have es: "Uint16_at b pos3 = Ret es"
            using Uint16_at_in [of pos3 b] pos3 by (simp add: unfold es_def)
          have "extensions_block (elems b) = Some (pos3 + 2, pos3 + 2 + int (unat es))"
            using a b c d
            by (simp add: extensions_block_def Let_def unfold sid_def [symmetric] pos1
                cs_def [symmetric] pos2 ct_def [symmetric] pos3 es_def [symmetric]
                del: of_nat_unat)
          with over have "pos3 + 2 + int (unat es) > e"
            by (simp add: unfold del: of_nat_unat)
          with a sid b cs c ct d es show ?thesis
            by (simp add: SNI_def Let_def unfold pos1 pos2 pos3 del: of_nat_unat)
        qed
      qed
    qed
  qed
qed

lemma SNI_block:
  assumes "extensions_block (elems (Body r)) = Some (S, E)" "E \<le> slice_len (Body r)"
  shows "SNI r = ext_loop (Body r) S E \<and> 40 \<le> S \<and> S \<le> E"
proof -
  define b where "b = Body r"
  define e where "e = slice_len b"
  have unfold: "Body r = b" "slice_len b = e" "int (length (elems b)) = e"
    by (simp_all add: b_def e_def slice_len_def)
  note blk = assms(1) [unfolded unfold]
  have a: "\<not> 38 > e - 1"
    using blk by (auto simp: extensions_block_def unfold)
  define sid where "sid = elems b ! 38"
  from a have sid: "index b 38 = Ret sid"
    using index_in [of 38 b] by (simp add: unfold sid_def)
  define pos1 where "pos1 = 39 + int (unat sid)"
  have pos1: "38 + (1 + int (unat sid)) = pos1" "39 + int (unat sid) = pos1" "39 \<le> pos1"
    by (simp_all add: pos1_def del: of_nat_unat)
  have b: "\<not> pos1 > e - 2"
    using blk a by (auto simp: extensions_block_def unfold Let_def sid_def [symmetric] pos1
        simp del: of_nat_unat split: if_splits)
  define cs where "cs = be16 (elems b ! nat pos1) (elems b ! nat (pos1 + 1))"
  from b have cs: "Uint16_at b pos1 = Ret cs"
    using Uint16_at_in [of pos1 b] pos1 by (simp add: unfold cs_def)
  define pos2 where "pos2 = pos1 + (2 + int (unat cs))"
  have pos2: "pos1 + (2 + int (unat cs)) = pos2" "pos1 + 2 + int (unat cs) = pos2" "41 \<le> pos2"
    using pos1(3) by (simp_all add: pos2_def del: of_nat_unat)
  have c: "\<not> pos2 > e - 1"
    using blk a b by (auto simp: extensions_block_def unfold Let_def sid_def [symmetric] pos1
        cs_def [symmetric] pos2 simp del: of_nat_unat split: if_splits)
  define ct where "ct = elems b ! nat pos2"
  from c have ct: "index b pos2 = Ret ct"
    using index_in [of pos2 b] pos2 by (simp add: unfold ct_def)
  define pos3 where "pos3 = pos2 + (1 + int (unat ct))"
  have pos3: "pos2 + (1 + int (unat ct)) = pos3" "pos2 + 1 + int (unat ct) = pos3" "42 \<le> pos3"
    using pos2(3) by (simp_all add: pos3_def del: of_nat_unat)
  have d: "\<not> pos3 > e - 2"
    using blk a b c by (auto simp: extensions_block_def unfold Let_def sid_def [symmetric] pos1
        cs_def [symmetric] pos2 ct_def [symmetric] pos3 simp del: of_nat_unat split: if_splits)
  define es where "es = be16 (elems b ! nat pos3) (elems b ! nat (pos3 + 1))"
  from d have es: "Uint16_at b pos3 = Ret es"
    using Uint16_at_in [of pos3 b] pos3 by (simp add: unfold es_def)
  have "extensions_block (elems b) = Some (pos3 + 2, pos3 + 2 + int (unat es))"
    using a b c d
    by (simp add: extensions_block_def Let_def unfold sid_def [symmetric] pos1
        cs_def [symmetric] pos2 ct_def [symmetric] pos3 es_def [symmetric]
        del: of_nat_unat)
  with blk have SE: "S = pos3 + 2" "E = pos3 + 2 + int (unat es)"
    by simp_all
  from assms(2) SE have fits: "\<not> pos3 + 2 + int (unat es) > e"
    by (simp add: unfold del: of_nat_unat)
  have "SNI r = ext_loop b (pos3 + 2) (pos3 + 2 + int (unat es))"
    using a sid b cs c ct d es fits
    by (simp add: SNI_def Let_def unfold pos1 pos2 pos3 del: of_nat_unat)
  with SE pos3(3) show ?thesis
    by (simp add: unfold del: of_nat_unat)
qed

text \<open>
  A name that the loops return lies inside the extensions block, behind the headers of
  its extension, of the name list and of its entry.
\<close>

lemma names_loop_within:
  "0 \<le> n \<Longrightarrow> pos \<le> end \<Longrightarrow> end \<le> slice_len body \<Longrightarrow>
   names_loop body n pos end = Ret (Some name) \<Longrightarrow>
   \<exists>m. n + 3 \<le> m \<and> m + int (length name) \<le> end \<and>
       name = map byte_to_char (take (length name) (drop (nat m) (elems body)))"
proof (induction body n pos "end" rule: names_loop.induct)
  case (1 body n pos "end")
  show ?case
  proof (cases "n < pos - 3")
    case False
    with 1(5) show ?thesis
      by (subst (asm) names_loop.simps) simp
  next
    case True
    with 1(2-4) have i: "index body n = Ret (elems body ! nat n)"
      by (intro index_in) simp_all
    from True 1(2-4) obtain w where u: "Uint16_at body (n + 1) = Ret w"
      using Uint16_at_ex [of "n + 1" body] by auto
    define ns where "ns = int (unat w)"
    have ns: "0 \<le> ns"
      by (simp add: ns_def del: of_nat_unat)
    show ?thesis
    proof (cases "elems body ! nat n = 0")
      case zero: True
      show ?thesis
      proof (cases "n + 3 + ns > end")
        case over: True
        with True i u zero 1(5) have "name = []"
          by (subst (asm) names_loop.simps) (simp add: Let_def ns_def [symmetric] del: of_nat_unat)
        with True 1(3) show ?thesis
          by (intro exI [of _ "n + 3"]) simp
      next
        case False
        with 1(2-4) ns have "subslice body (n + 3) (n + 3 + ns) =
           Ret (Slice (take (nat (n + 3 + ns - (n + 3))) (drop (nat (n + 3)) (elems body)))
                  (drop (nat (n + 3 + ns)) (elems body) @ spare body))"
          by (intro subslice_in) simp_all
        with False True i u zero 1(5)
        have name: "name = map byte_to_char (take (nat ns) (drop (nat (n + 3)) (elems body)))"
          by (subst (asm) names_loop.simps)
             (simp add: Let_def go_string_def ns_def [symmetric] del: of_nat_unat)
        from False 1(2,4) ns have "nat ns \<le> length (drop (nat (n + 3)) (elems body))"
          by (simp add: slice_len_def)
        with name have len: "length name = nat ns"
          by simp
        with name False ns show ?thesis
          by (intro exI [of _ "n + 3"]) simp
      qed
    next
      case nonzero: False
      from True i u nonzero 1(5) have "names_loop body (n + 3) pos end = Ret (Some name)"
        by (subst (asm) names_loop.simps) (simp add: Let_def del: of_nat_unat)
      with 1(2-4) have "\<exists>m. n + 3 + 3 \<le> m \<and> m + int (length name) \<le> end \<and>
          name = map byte_to_char (take (length name) (drop (nat m) (elems body)))"
        by (intro 1(1) [OF True i u refl refl nonzero]) simp_all
      then obtain m where "n + 3 + 3 \<le> m" "m + int (length name) \<le> end"
        "name = map byte_to_char (take (length name) (drop (nat m) (elems body)))"
        by blast
      then show ?thesis
        by (intro exI [of _ m]) simp
    qed
  qed
qed

lemma ext_loop_within:
  "0 \<le> pos \<Longrightarrow> end \<le> slice_len body \<Longrightarrow> ext_loop body pos end = Ret name \<Longrightarrow> name \<noteq> [] \<Longrightarrow>
   \<exists>m. pos + 9 \<le> m \<and> m + int (length name) \<le> end \<and>
       name = map byte_to_char (take (length name) (drop (nat m) (elems body)))"
proof (induction body pos "end" rule: ext_loop.induct)
  case (1 body pos "end")
  show ?case
  proof (cases "pos + 4 < end")
    case False
    with 1(5,6) show ?thesis
      by (subst (asm) ext_loop.simps) simp
  next
    case True
    define t where "t = be16 (elems body ! nat pos) (elems body ! nat (pos + 1))"
    define es where "es = be16 (elems body ! nat (pos + 2)) (elems body ! nat (pos + 2 + 1))"
    from True 1(3,4) have t: "Uint16_at body pos = Ret t"
      unfolding t_def by (intro Uint16_at_in) simp_all
    from True 1(3,4) have es: "Uint16_at body (pos + 2) = Ret es"
      unfolding es_def by (intro Uint16_at_in) simp_all
    show ?thesis
    proof (cases "t = 0")
      case other: False
      from True t es other 1(5) have "ext_loop body (pos + 4 + int (unat es)) end = Ret name"
        by (subst (asm) ext_loop.simps) (simp add: Let_def del: of_nat_unat)
      with 1(3,4,6) have "\<exists>m. pos + 4 + int (unat es) + 9 \<le> m \<and> m + int (length name) \<le> end \<and>
          name = map byte_to_char (take (length name) (drop (nat m) (elems body)))"
        by (intro 1(2) [OF True t es refl refl other]) simp_all
      then obtain m where "pos + 4 + int (unat es) + 9 \<le> m" "m + int (length name) \<le> end"
        "name = map byte_to_char (take (length name) (drop (nat m) (elems body)))"
        by blast
      moreover have "0 \<le> int (unat es)" by simp
      ultimately show ?thesis
        by (intro exI [of _ m]) (simp del: of_nat_unat)
    next
      case sni: True
      show ?thesis
      proof (cases "pos + 4 > end - 2")
        case True
        with \<open>pos + 4 < end\<close> t es sni 1(5,6) show ?thesis
          by (subst (asm) ext_loop.simps) (simp add: Let_def del: of_nat_unat)
      next
        case room: False
        define nl where "nl = be16 (elems body ! nat (pos + 4)) (elems body ! nat (pos + 4 + 1))"
        from room 1(3,4) have nl: "Uint16_at body (pos + 4) = Ret nl"
          unfolding nl_def by (intro Uint16_at_in) simp_all
        define pos2 where "pos2 = pos + 4 + 2 + int (unat nl)"
        have pos2: "pos + 4 + 2 + int (unat nl) = pos2" "pos + 6 \<le> pos2"
          "6 + pos + int (unat nl) = pos2"
          by (simp_all add: pos2_def del: of_nat_unat)
        show ?thesis
        proof (cases "pos2 > end")
          case True
          with \<open>pos + 4 < end\<close> t es sni room nl 1(5,6) show ?thesis
            by (subst (asm) ext_loop.simps) (simp add: Let_def pos2 del: of_nat_unat)
        next
          case fits: False
          have "\<exists>r. names_loop body (pos + 4 + 2) pos2 end = Ret r \<and>
             (\<forall>name. r = Some name \<longrightarrow> sublist name (go_string body))"
            using fits 1(3,4) by (intro names_loop_safe) simp_all
          then obtain r where r: "names_loop body (pos + 4 + 2) pos2 end = Ret r"
            by blast
          show ?thesis
          proof (cases r)
            case (Some name')
            with \<open>pos + 4 < end\<close> t es sni room nl fits r 1(5) have "name' = name"
              by (subst (asm) ext_loop.simps) (simp add: Let_def pos2 del: of_nat_unat)
            with r Some have "names_loop body (pos + 4 + 2) pos2 end = Ret (Some name)"
              by simp
            with fits 1(3,4) have "\<exists>m. pos + 4 + 2 + 3 \<le> m \<and> m + int (length name) \<le> end \<and>
                name = map byte_to_char (take (length name) (drop (nat m) (elems body)))"
              by (intro names_loop_within) simp_all
            then obtain m where "pos + 4 + 2 + 3 \<le> m" "m + int (length name) \<le> end"
              "name = map byte_to_char (take (length name) (drop (nat m) (elems body)))"
              by blast
            then show ?thesis
              by (intro exI [of _ m]) simp
          next
            case None
            with \<open>pos + 4 < end\<close> t es sni room nl fits r 1(5)
            have "ext_loop body pos2 end = Ret name"
              by (subst (asm) ext_loop.simps) (simp add: Let_def pos2 del: of_nat_unat)
            with 1(3,4,6) pos2(2) r None fits
            have "\<exists>m. pos2 + 9 \<le> m \<and> m + int (length name) \<le> end \<and>
                name = map byte_to_char (take (length name) (drop (nat m) (elems body)))"
              unfolding pos2_def
              by (intro 1(1) [OF \<open>pos + 4 < end\<close> t es refl refl sni room nl refl refl refl])
                 (simp_all add: pos2_def del: of_nat_unat)
            then obtain m where "pos2 + 9 \<le> m" "m + int (length name) \<le> end"
              "name = map byte_to_char (take (length name) (drop (nat m) (elems body)))"
              by blast
            with pos2(2) show ?thesis
              by (intro exI [of _ m]) simp
          qed
        qed
      qed
    qed
  qed
qed

lemma SNI_within:
  assumes "SNI r = Ret name" "name \<noteq> []"
  shows "\<exists>S E m. extensions_block (elems (Body r)) = Some (S, E) \<and> E \<le> slice_len (Body r) \<and>
           S + 9 \<le> m \<and> m + int (length name) \<le> E \<and>
           name = map byte_to_char (take (length name) (drop (nat m) (elems (Body r))))"
proof (cases "extensions_block (elems (Body r))")
  case None
  then have "SNI r = Ret []"
    by (intro SNI_block_overrun) simp
  with assms show ?thesis by simp
next
  case (Some blk)
  obtain S E where blk: "blk = (S, E)" by (cases blk)
  show ?thesis
  proof (cases "slice_len (Body r) < E")
    case True
    with Some blk have "SNI r = Ret []"
      by (intro SNI_block_overrun) simp
    with assms show ?thesis by simp
  next
    case False
    with Some blk have loop: "SNI r = ext_loop (Body r) S E" and S: "40 \<le> S"
      using SNI_block [of r S E] by simp_all
    with assms False have "\<exists>m. S + 9 \<le> m \<and> m + int (length name) \<le> E \<and>
        name = map byte_to_char (take (length name) (drop (nat m) (elems (Body r))))"
      by (intro ext_loop_within) simp_all
    with Some blk False show ?thesis
      by simp
  qed
qed

text \<open>The checks in front of the length fields that the loops follow.\<close>

lemma ext_loop_skipped_overrun:
  assumes "pos + 4 < end" "Uint16_at body pos = Ret extType" "extType \<noteq> 0"
    and "Uint16_at body (pos + 2) = Ret es" "end < pos + 4 + int (unat es)"
  shows "ext_loop body pos end = Ret []"
proof -
  have "ext_loop body pos end = ext_loop body (pos + 4 + int (unat es)) end"
    using assms by (subst ext_loop.simps) (simp add: Let_def del: of_nat_unat)
  also have "\<dots> = Ret []"
    using assms(5) by (subst ext_loop.simps) simp
  finally show ?thesis .
qed

lemma ext_loop_names_overrun:
  assumes "pos + 4 < end" "Uint16_at body pos = Ret 0" "Uint16_at body (pos + 2) = Ret es"
    and "Uint16_at body (pos + 4) = Ret nl" "end < pos + 4 + 2 + int (unat nl)"
  shows "ext_loop body pos end = Ret []"
  using assms by (subst ext_loop.simps) (simp add: Let_def del: of_nat_unat)

lemma names_loop_name_overrun:
  assumes "n < pos - 3" "index body n = Ret 0" "Uint16_at body (n + 1) = Ret ns"
    and "end < n + 3 + int (unat ns)"
  shows "names_loop body n pos end = Ret (Some [])"
  using assms by (subst names_loop.simps) (simp add: Let_def del: of_nat_unat)

lemma ext_loop_reached:
  "ext_reached body end start pos \<Longrightarrow> ext_loop body start end = ext_loop body pos end"
proof (induction rule: ext_reached.induct)
  case (first start)
  show ?case ..
next
  case (skipped start pos extType es)
  have "ext_loop body pos end = ext_loop body (pos + 4 + int (unat es)) end"
    using skipped.hyps by (subst ext_loop.simps) (simp add: Let_def del: of_nat_unat)
  with skipped.IH show ?case by simp
next
  case (no_host_name start pos es nl)
  have "ext_loop body pos end = ext_loop body (pos + 4 + 2 + int (unat nl)) end"
    using no_host_name.hyps by (subst ext_loop.simps) (simp add: Let_def del: of_nat_unat)
  with no_host_name.IH show ?case by simp
qed

lemma names_loop_reached:
  "name_reached body pos start n \<Longrightarrow> names_loop body start pos end = names_loop body n pos end"
proof (induction rule: name_reached.induct)
  case (first start)
  show ?case ..
next
  case (other_type start n nameType ns)
  have "names_loop body n pos end = names_loop body (n + 3) pos end"
    using other_type.hyps by (subst names_loop.simps) (simp add: Let_def del: of_nat_unat)
  with other_type.IH show ?case by simp
qed

lemma SNI_skipped_overrun:
  assumes "extensions_block (elems (Body r)) = Some (S, E)" "E \<le> slice_len (Body r)"
    and "ext_reached (Body r) E S pos" "pos + 4 < E"
    and "Uint16_at (Body r) pos = Ret extType" "extType \<noteq> 0"
    and "Uint16_at (Body r) (pos + 2) = Ret es" "E < pos + 4 + int (unat es)"
  shows "SNI r = Ret []"
proof -
  have "SNI r = ext_loop (Body r) S E"
    using SNI_block [OF assms(1,2)] by simp
  also have "\<dots> = ext_loop (Body r) pos E"
    using assms(3) by (rule ext_loop_reached)
  also have "\<dots> = Ret []"
    using assms(4-8) by (rule ext_loop_skipped_overrun)
  finally show ?thesis .
qed

lemma SNI_names_overrun:
  assumes "extensions_block (elems (Body r)) = Some (S, E)" "E \<le> slice_len (Body r)"
    and "ext_reached (Body r) E S pos" "pos + 4 < E"
    and "Uint16_at (Body r) pos = Ret 0" "Uint16_at (Body r) (pos + 2) = Ret es"
    and "Uint16_at (Body r) (pos + 4) = Ret nl" "E < pos + 4 + 2 + int (unat nl)"
  shows "SNI r = Ret []"
proof -
  have "SNI r = ext_loop (Body r) S E"
    using SNI_block [OF assms(1,2)] by simp
  also have "\<dots> = ext_loop (Body r) pos E"
    using assms(3) by (rule ext_loop_reached)
  also have "\<dots> = Ret []"
    using assms(4-8) by (rule ext_loop_names_overrun)
  finally show ?thesis .
qed

lemma SNI_name_overrun:
  assumes "extensions_block (elems (Body r)) = Some (S, E)" "E \<le> slice_len (Body r)"
    and "ext_reached (Body r) E S pos" "pos + 4 < E"
    and "Uint16_at (Body r) pos = Ret 0" "Uint16_at (Body r) (pos + 2) = Ret es"
    and "Uint16_at (Body r) (pos + 4) = Ret nl" "pos + 4 + 2 + int (unat nl) \<le> E"
    and "name_reached (Body r) (pos + 4 + 2 + int (unat nl)) (pos + 4 + 2) n"
    and "n < pos + 4 + 2 + int (unat nl) - 3"
    and "index (Body r) n = Ret 0" "Uint16_at (Body r) (n + 1) = Ret ns"
    and "E < n + 3 + int (unat ns)"
  shows "SNI r = Ret []"
proof -
  define pos2 where "pos2 = pos + 4 + 2 + int (unat nl)"
  have room: "\<not> pos + 4 > E - 2"
  proof -
    have "0 \<le> int (unat nl)" by simp
    with assms(8) show ?thesis by (simp del: of_nat_unat)
  qed
  have "names_loop (Body r) (pos + 4 + 2) pos2 E = names_loop (Body r) n pos2 E"
    using assms(9) unfolding pos2_def by (rule names_loop_reached)
  also have "\<dots> = Ret (Some [])"
    using assms(10-13) unfolding pos2_def by (rule names_loop_name_overrun)
  finally have names: "names_loop (Body r) (pos + 4 + 2) pos2 E = Ret (Some [])" .
  have "SNI r = ext_loop (Body r) S E"
    using SNI_block [OF assms(1,2)] by simp
  also have "\<dots> = ext_loop (Body r) pos E"
    using assms(3) by (rule ext_loop_reached)
  also have "\<dots> = Ret []"
    using assms(4-8) room names
    by (subst ext_loop.simps) (simp add: Let_def pos2_def del: of_nat_unat)
  finally show ?thesis .
qed

text \<open>
  Claim C3, amended. For every body, truncated, empty or arbitrary, and whatever the
  capacity of its slice, \<open>SNI\<close> returns without a panic, so without a read outside
  the body, and the name it returns is a run of bytes of the body. It returns the empty
  name when one of the four length fields in front of the extensions runs past the end of
  the body. A name that is not empty lies inside the extensions block that these fields
  declare. Inside that block \<open>SNI\<close> returns the empty name when the loop over the
  extensions reaches an extension of another type whose length runs past the end of the
  block, when it reaches a \<open>server_name\<close> extension whose list of names does, and when
  the loop over the names of that list reaches an entry of name type 0 whose name does.
  The length of the \<open>server_name\<close> extension itself is not looked at.
\<close>

theorem SNI_bounds:
  "(\<exists>name. SNI r = Ret name \<and> sublist name (go_string (Body r))) \<and>
   ((case extensions_block (elems (Body r)) of None \<Rightarrow> True
     | Some (S, E) \<Rightarrow> slice_len (Body r) < E) \<longrightarrow> SNI r = Ret []) \<and>
   (SNI r = Ret name \<and> name \<noteq> [] \<longrightarrow>
      (\<exists>S E m. extensions_block (elems (Body r)) = Some (S, E) \<and> E \<le> slice_len (Body r) \<and>
         S + 9 \<le> m \<and> m + int (length name) \<le> E \<and>
         name = map byte_to_char (take (length name) (drop (nat m) (elems (Body r)))))) \<and>
   (extensions_block (elems (Body r)) = Some (S, E) \<and> E \<le> slice_len (Body r) \<and>
    ext_reached (Body r) E S pos \<and> pos + 4 < E \<and>
    Uint16_at (Body r) pos = Ret extType \<and> extType \<noteq> 0 \<and>
    Uint16_at (Body r) (pos + 2) = Ret es \<and> E < pos + 4 + int (unat es) \<longrightarrow>
      SNI r = Ret []) \<and>
   (extensions_block (elems (Body r)) = Some (S, E) \<and> E \<le> slice_len (Body r) \<and>
    ext_reached (Body r) E S pos \<and> pos + 4 < E \<and>
    Uint16_at (Body r) pos = Ret 0 \<and> Uint16_at (Body r) (pos + 2) = Ret es \<and>
    Uint16_at (Body r) (pos + 4) = Ret nl \<and> E < pos + 4 + 2 + int (unat nl) \<longrightarrow>
      SNI r = Ret []) \<and>
   (extensions_block (elems (Body r)) = Some (S, E) \<and> E \<le> slice_len (Body r) \<and>
    ext_reached (Body r) E S pos \<and> pos + 4 < E \<and>
    Uint16_at (Body r) pos = Ret 0 \<and> Uint16_at (Body r) (pos + 2) = Ret es \<and>
    Uint16_at (Body r) (pos + 4) = Ret nl \<and> pos + 4 + 2 + int (unat nl) \<le> E \<and>
    name_reached (Body r) (pos + 4 + 2 + int (unat nl)) (pos + 4 + 2) n \<and>
    n < pos + 4 + 2 + int (unat nl) - 3 \<and>
    index (Body r) n = Ret 0 \<and> Uint16_at (Body r) (n + 1) = Ret ns \<and>
    E < n + 3 + int (unat ns) \<longrightarrow>
      SNI r = Ret [])"
proof (intro conjI impI)
  show "\<exists>name. SNI r = Ret name \<and> sublist name (go_string (Body r))"
    by (rule SNI_safe)
next
  assume "case extensions_block (elems (Body r)) of None \<Rightarrow> True
     | Some (S, E) \<Rightarrow> slice_len (Body r) < E"
  then show "SNI r = Ret []"
    by (rule SNI_block_overrun)
next
  assume "SNI r = Ret name \<and> name \<noteq> []"
  then show "\<exists>S E m. extensions_block (elems (Body r)) = Some (S, E) \<and> E \<le> slice_len (Body r) \<and>
         S + 9 \<le> m \<and> m + int (length name) \<le> E \<and>
         name = map byte_to_char (take (length name) (drop (nat m) (elems (Body r))))"
    using SNI_within [of r name] by blast
next
  assume "extensions_block (elems (Body r)) = Some (S, E) \<and> E \<le> slice_len (Body r) \<and>
    ext_reached (Body r) E S pos \<and> pos + 4 < E \<and>
    Uint16_at (Body r) pos = Ret extType \<and> extType \<noteq> 0 \<and>
    Uint16_at (Body r) (pos + 2) = Ret es \<and> E < pos + 4 + int (unat es)"
  then show "SNI r = Ret []"
    using SNI_skipped_overrun [of r S E pos extType es] by blast
next
  assume "extensions_block (elems (Body r)) = Some (S, E) \<and> E \<le> slice_len (Body r) \<and>
    ext_reached (Body r) E S pos \<and> pos + 4 < E \<and>
    Uint16_at (Body r) pos = Ret 0 \<and> Uint16_at (Body r) (pos + 2) = Ret es \<and>
    Uint16_at (Body r) (pos + 4) = Ret nl \<and> E < pos + 4 + 2 + int (unat nl)"
  then show "SNI r = Ret []"
    using SNI_names_overrun [of r S E pos es nl] by blast
next
  assume "extensions_block (elems (Body r)) = Some (S, E) \<and> E \<le> slice_len (Body r) \<and>
    ext_reached (Body r) E S pos \<and> pos + 4 < E \<and>
    Uint16_at (Body r) pos = Ret 0 \<and> Uint16_at (Body r) (pos + 2) = Ret es \<and>
    Uint16_at (Body r) (pos + 4) = Ret nl \<and> pos + 4 + 2 + int (unat nl) \<le> E \<and>
    name_reached (Body r) (pos + 4 + 2 + int (unat nl)) (pos + 4 + 2) n \<and>
    n < pos + 4 + 2 + int (unat nl) - 3 \<and>
    index (Body r) n = Ret 0 \<and> Uint16_at (Body r) (n + 1) = Ret ns \<and>
    E < n + 3 + int (unat ns)"
  then show "SNI r = Ret []"
    using SNI_name_overrun [of r S E pos es nl n ns] by blast
qed

lemma byte_to_char_inverse [simp]: "byte_to_char (char_to_byte c) = c"
proof -
  have "(of_char c :: byte) = of_nat (of_char c)"
    by (simp add: of_nat_of_char)
  then have "unat (of_char c :: byte) = of_char c"
    by (simp add: unat_of_nat)
  then show ?thesis
    by (simp add: byte_to_char_def char_to_byte_def)
qed

lemmas slice_eval = index_def slice_len_def slice_cap_def subslice_def Uint16_at_def Uint16_def
  be16_def go_string_def

lemma block_example_com: "extensions_block example_com_body = Some (47, 67)"
  by (simp add: extensions_block_def example_com_body_def hello_prefix_def Let_def be16_def)

lemma block_long_skipped: "extensions_block long_skipped_body = Some (47, 53)"
  by (simp add: extensions_block_def long_skipped_body_def hello_prefix_def Let_def be16_def)

lemma block_long_list: "extensions_block long_list_body = Some (47, 54)"
  by (simp add: extensions_block_def long_list_body_def hello_prefix_def Let_def be16_def)

lemma block_slack_name: "extensions_block slack_name_body = Some (47, 57)"
  by (simp add: extensions_block_def slack_name_body_def hello_prefix_def Let_def be16_def)

lemma Body_record_of: "Body (record_of body) = Slice body []"
  by (simp add: record_of_def)

theorem SNI_bounds_witness:
  "SNI (record_of (take 40 example_com_body)) = Ret [] \<and>
   SNI (record_of example_com_body) = Ret ''example.com'' \<and>
   (\<exists>m. 56 \<le> m \<and> m + int (length ''example.com'') \<le> 67 \<and>
        ''example.com'' =
          map byte_to_char (take (length ''example.com'') (drop (nat m) example_com_body))) \<and>
   SNI (record_of long_skipped_body) = Ret [] \<and>
   SNI (record_of long_list_body) = Ret [] \<and>
   slice_len (Slice slack_name_body []) = 59 \<and> SNI (record_of slack_name_body) = Ret []"
proof (intro conjI)
  have "extensions_block (take 40 example_com_body) = None"
    by (simp add: extensions_block_def example_com_body_def hello_prefix_def Let_def)
  then have "case extensions_block (elems (Body (record_of (take 40 example_com_body)))) of
      None \<Rightarrow> True
    | Some (S, E) \<Rightarrow> slice_len (Body (record_of (take 40 example_com_body))) < E"
    by (simp add: Body_record_of)
  then show "SNI (record_of (take 40 example_com_body)) = Ret []"
    by (rule SNI_bounds [THEN conjunct2, THEN conjunct1, THEN mp])
next
  show name: "SNI (record_of example_com_body) = Ret ''example.com''"
    by (simp add: SNI_def record_of_def example_com_body_def hello_prefix_def Let_def slice_eval
        ext_loop.simps names_loop.simps)
  define host where "host = ''example.com''"
  have host: "SNI (record_of example_com_body) = Ret host \<and> host \<noteq> []"
    using name by (simp add: host_def)
  from SNI_bounds [of "record_of example_com_body" host,
      THEN conjunct2, THEN conjunct2, THEN conjunct1, THEN mp, OF host]
  obtain S E m where blk: "extensions_block (elems (Body (record_of example_com_body))) = Some (S, E)"
    and m: "S + 9 \<le> m" "m + int (length host) \<le> E"
      "host = map byte_to_char (take (length host)
          (drop (nat m) (elems (Body (record_of example_com_body)))))"
    by (elim exE conjE)
  from blk block_example_com have "S = 47" "E = 67"
    by (simp_all add: Body_record_of)
  with m(1,2) have "56 \<le> m" "m + int (length host) \<le> 67"
    by simp_all
  moreover have "elems (Body (record_of example_com_body)) = example_com_body"
    by (simp add: Body_record_of)
  note m(3) [unfolded this]
  ultimately show "\<exists>m. 56 \<le> m \<and> m + int (length ''example.com'') \<le> 67 \<and>
        ''example.com'' =
          map byte_to_char (take (length ''example.com'') (drop (nat m) example_com_body))"
    unfolding host_def by (intro exI [of _ m] conjI)
next
  have "Uint16_at (Slice long_skipped_body []) 47 = Ret 5"
    "Uint16_at (Slice long_skipped_body []) (47 + 2) = Ret 65535"
    "(53 :: int) \<le> slice_len (Slice long_skipped_body [])"
    by (simp_all add: slice_eval long_skipped_body_def hello_prefix_def)
  moreover have "ext_reached (Slice long_skipped_body []) 53 47 47"
    by (rule ext_reached.first)
  ultimately have "extensions_block (elems (Body (record_of long_skipped_body))) = Some (47, 53) \<and>
      53 \<le> slice_len (Body (record_of long_skipped_body)) \<and>
      ext_reached (Body (record_of long_skipped_body)) 53 47 47 \<and> 47 + 4 < (53 :: int) \<and>
      Uint16_at (Body (record_of long_skipped_body)) 47 = Ret 5 \<and> (5 :: 16 word) \<noteq> 0 \<and>
      Uint16_at (Body (record_of long_skipped_body)) (47 + 2) = Ret 65535 \<and>
      53 < 47 + 4 + int (unat (65535 :: 16 word))"
    by (simp add: Body_record_of block_long_skipped)
  then show "SNI (record_of long_skipped_body) = Ret []"
    by (rule SNI_bounds [THEN conjunct2, THEN conjunct2, THEN conjunct2, THEN conjunct1, THEN mp])
next
  have "Uint16_at (Slice long_list_body []) 47 = Ret 0"
    "Uint16_at (Slice long_list_body []) (47 + 2) = Ret 2"
    "Uint16_at (Slice long_list_body []) (47 + 4) = Ret 65535"
    "(54 :: int) \<le> slice_len (Slice long_list_body [])"
    by (simp_all add: slice_eval long_list_body_def hello_prefix_def)
  moreover have "ext_reached (Slice long_list_body []) 54 47 47"
    by (rule ext_reached.first)
  ultimately have "extensions_block (elems (Body (record_of long_list_body))) = Some (47, 54) \<and>
      54 \<le> slice_len (Body (record_of long_list_body)) \<and>
      ext_reached (Body (record_of long_list_body)) 54 47 47 \<and> 47 + 4 < (54 :: int) \<and>
      Uint16_at (Body (record_of long_list_body)) 47 = Ret 0 \<and>
      Uint16_at (Body (record_of long_list_body)) (47 + 2) = Ret 2 \<and>
      Uint16_at (Body (record_of long_list_body)) (47 + 4) = Ret 65535 \<and>
      54 < 47 + 4 + 2 + int (unat (65535 :: 16 word))"
    by (simp add: Body_record_of block_long_list)
  then show "SNI (record_of long_list_body) = Ret []"
    by (rule SNI_bounds [THEN conjunct2, THEN conjunct2, THEN conjunct2, THEN conjunct2,
          THEN conjunct1, THEN mp])
next
  show "slice_len (Slice slack_name_body []) = 59"
    by (simp add: slice_len_def slack_name_body_def hello_prefix_def)
  have "Uint16_at (Slice slack_name_body []) 47 = Ret 0"
    "Uint16_at (Slice slack_name_body []) (47 + 2) = Ret 6"
    "Uint16_at (Slice slack_name_body []) (47 + 4) = Ret 4"
    "index (Slice slack_name_body []) 53 = Ret 0"
    "Uint16_at (Slice slack_name_body []) (53 + 1) = Ret 3"
    "(57 :: int) \<le> slice_len (Slice slack_name_body [])"
    by (simp_all add: slice_eval slack_name_body_def hello_prefix_def)
  moreover have "ext_reached (Slice slack_name_body []) 57 47 47"
    by (rule ext_reached.first)
  moreover have "name_reached (Slice slack_name_body []) (47 + 4 + 2 + int (unat (4 :: 16 word)))
      (47 + 4 + 2) 53"
    using name_reached.first [of "Slice slack_name_body []" _ 53] by simp
  ultimately have "extensions_block (elems (Body (record_of slack_name_body))) = Some (47, 57) \<and>
      57 \<le> slice_len (Body (record_of slack_name_body)) \<and>
      ext_reached (Body (record_of slack_name_body)) 57 47 47 \<and> 47 + 4 < (57 :: int) \<and>
      Uint16_at (Body (record_of slack_name_body)) 47 = Ret 0 \<and>
      Uint16_at (Body (record_of slack_name_body)) (47 + 2) = Ret 6 \<and>
      Uint16_at (Body (record_of slack_name_body)) (47 + 4) = Ret 4 \<and>
      47 + 4 + 2 + int (unat (4 :: 16 word)) \<le> 57 \<and>
      name_reached (Body (record_of slack_name_body)) (47 + 4 + 2 + int (unat (4 :: 16 word)))
        (47 + 4 + 2) 53 \<and>
      53 < 47 + 4 + 2 + int (unat (4 :: 16 word)) - 3 \<and>
      index (Body (record_of slack_name_body)) 53 = Ret 0 \<and>
      Uint16_at (Body (record_of slack_name_body)) (53 + 1) = Ret 3 \<and>
      57 < 53 + 3 + int (unat (3 :: 16 word))"
    by (simp add: Body_record_of block_slack_name)
  then show "SNI (record_of slack_name_body) = Ret []"
    by (rule SNI_bounds [THEN conjunct2, THEN conjunct2, THEN conjunct2, THEN conjunct2,
          THEN conjunct2, THEN mp])
qed

text \<open>
  Claim C3, as stated, fails: in \<open>long_extension_body\<close> the length field of the
  \<open>server_name\<close> extension, at offset 49, declares 65535 bytes of data, far past
  the end of the body of 57 bytes, and the name \<open>A\<close> is returned all the same.
\<close>

theorem SNI_long_extension:
  "Uint16_at (Slice long_extension_body []) 49 = Ret 65535 \<and>
   slice_len (Slice long_extension_body []) < 51 + 65535 \<and>
   SNI (record_of long_extension_body) = Ret ''A''"
  by (simp add: SNI_def record_of_def long_extension_body_def hello_prefix_def Let_def slice_eval
      ext_loop.simps names_loop.simps)

section \<open>The first host name\<close>

lemma length_u16_bytes [simp]: "length (u16_bytes n) = 2"
  by (simp add: u16_bytes_def)

lemma unat_byte_of_nat: "n < 256 \<Longrightarrow> unat (word_of_nat n :: byte) = n"
  by (simp add: unat_of_nat)

lemma unat_u16_of_nat: "n < 65536 \<Longrightarrow> unat (word_of_nat n :: 16 word) = n"
  by (simp add: unat_of_nat)

lemma be16_u16_bytes:
  assumes "n < 65536"
  shows "be16 (word_of_nat (n div 256)) (word_of_nat (n mod 256)) = word_of_nat n"
proof -
  from assms have "n div 256 < 256" by simp
  then have "unat (word_of_nat (n div 256) :: byte) = n div 256"
    by (rule unat_byte_of_nat)
  moreover have "unat (word_of_nat (n mod 256) :: byte) = n mod 256"
    by (intro unat_byte_of_nat) simp
  ultimately show ?thesis
    by (simp add: be16_def)
qed

lemma index_at:
  "index (Slice (A @ x # B) sp) (int (length A)) = Ret x"
  by (simp add: index_def slice_len_def)

lemma Uint16_at_u16_bytes:
  assumes "n < 65536"
  shows "Uint16_at (Slice (A @ u16_bytes n @ B) sp) (int (length A)) = Ret (word_of_nat n)"
proof -
  have "Uint16_at (Slice (A @ u16_bytes n @ B) sp) (int (length A)) =
      Ret (be16 (elems (Slice (A @ u16_bytes n @ B) sp) ! nat (int (length A)))
               (elems (Slice (A @ u16_bytes n @ B) sp) ! nat (int (length A) + 1)))"
    by (intro Uint16_at_in) (simp_all add: slice_len_def)
  moreover have "nat (int (length A) + 1) = Suc (length A)" by simp
  ultimately show ?thesis
    using assms by (simp add: u16_bytes_def be16_u16_bytes nth_append)
qed

lemma subslice_at:
  "subslice (Slice (A @ X @ B) sp) (int (length A)) (int (length A) + int (length X)) =
   Ret (Slice X (B @ sp))"
proof -
  have "subslice (Slice (A @ X @ B) sp) (int (length A)) (int (length A) + int (length X)) =
      Ret (Slice (take (nat (int (length A) + int (length X) - int (length A)))
                    (drop (nat (int (length A))) (elems (Slice (A @ X @ B) sp))))
                 (drop (nat (int (length A) + int (length X))) (elems (Slice (A @ X @ B) sp)) @
                  spare (Slice (A @ X @ B) sp)))"
    by (intro subslice_in) (simp_all add: slice_len_def)
  moreover have "nat (int (length A) + int (length X)) = length A + length X"
    by simp
  ultimately show ?thesis
    by simp
qed

lemma length_encode_ext: "length (encode_ext e) = 4 + length (snd e)"
  by (simp add: encode_ext_def)

lemma length_encode_name: "length (encode_name e) = 3 + length (snd e)"
  by (simp add: encode_name_def)

lemma names_loop_first:
  assumes "length name < 65536" "int (length A) < pos - 3"
    and "int (length A) + 3 + int (length name) \<le> end"
  shows "names_loop (Slice (A @ encode_name (0, name) @ B) sp) (int (length A)) pos end =
         Ret (Some (map byte_to_char name))"
proof -
  let ?body = "Slice (A @ encode_name (0, name) @ B) sp"
  have shape1: "A @ encode_name (0, name) @ B = A @ 0 # (u16_bytes (length name) @ name @ B)"
    by (simp add: encode_name_def)
  have shape2: "A @ encode_name (0, name) @ B = (A @ [0]) @ u16_bytes (length name) @ (name @ B)"
    by (simp add: encode_name_def)
  have shape3: "A @ encode_name (0, name) @ B = (A @ [0] @ u16_bytes (length name)) @ name @ B"
    by (simp add: encode_name_def)
  have t: "index ?body (int (length A)) = Ret 0"
    unfolding shape1 by (rule index_at)
  have "Uint16_at ?body (int (length (A @ [0]))) = Ret (word_of_nat (length name))"
    unfolding shape2 using assms(1) by (rule Uint16_at_u16_bytes)
  then have ns: "Uint16_at ?body (int (length A) + 1) = Ret (word_of_nat (length name))"
    by (simp add: add.commute)
  have "subslice ?body (int (length (A @ [0] @ u16_bytes (length name))))
          (int (length (A @ [0] @ u16_bytes (length name))) + int (length name)) =
        Ret (Slice name (B @ sp))"
    unfolding shape3 by (rule subslice_at)
  then have sub: "subslice ?body (int (length A) + 3) (int (length A) + 3 + int (length name)) =
        Ret (Slice name (B @ sp))"
    by (simp add: add.commute)
  from assms t ns sub show ?thesis
    by (subst names_loop.simps)
       (simp add: Let_def unat_u16_of_nat go_string_def del: of_nat_unat)
qed

lemma ext_loop_skip:
  assumes "fst e \<noteq> 0" "length (snd e) < 65536" "int (length A) + 4 < end"
  shows "ext_loop (Slice (A @ encode_ext e @ B) sp) (int (length A)) end =
         ext_loop (Slice (A @ encode_ext e @ B) sp) (int (length (A @ encode_ext e))) end"
proof -
  let ?body = "Slice (A @ encode_ext e @ B) sp"
  have shape1: "A @ encode_ext e @ B =
      A @ u16_bytes (unat (fst e)) @ (u16_bytes (length (snd e)) @ snd e @ B)"
    by (simp add: encode_ext_def)
  have shape2: "A @ encode_ext e @ B =
      (A @ u16_bytes (unat (fst e))) @ u16_bytes (length (snd e)) @ (snd e @ B)"
    by (simp add: encode_ext_def)
  have "unat (fst e) < 65536"
    using unsigned_less [of "fst e", where 'a = nat] by simp
  then have "Uint16_at ?body (int (length A)) = Ret (word_of_nat (unat (fst e)))"
    unfolding shape1 by (rule Uint16_at_u16_bytes)
  then have t: "Uint16_at ?body (int (length A)) = Ret (fst e)"
    by simp
  have "Uint16_at ?body (int (length (A @ u16_bytes (unat (fst e))))) =
      Ret (word_of_nat (length (snd e)))"
    unfolding shape2 using assms(2) by (rule Uint16_at_u16_bytes)
  then have es: "Uint16_at ?body (int (length A) + 2) = Ret (word_of_nat (length (snd e)))"
    by (simp add: add.commute)
  have "int (length (A @ encode_ext e)) = int (length A) + 4 + int (length (snd e))"
    by (simp add: length_encode_ext)
  with assms t es show ?thesis
    by (subst ext_loop.simps) (simp add: Let_def unat_u16_of_nat add.assoc del: of_nat_unat)
qed

lemma ext_loop_skip_all:
  assumes "\<forall>e\<in>set pre. fst e \<noteq> 0 \<and> length (snd e) < 65536"
    and "int (length (A @ concat (map encode_ext pre))) + 4 < end"
  shows "ext_loop (Slice (A @ concat (map encode_ext pre) @ B) sp) (int (length A)) end =
         ext_loop (Slice (A @ concat (map encode_ext pre) @ B) sp)
           (int (length (A @ concat (map encode_ext pre)))) end"
  using assms
proof (induction pre arbitrary: A)
  case Nil
  show ?case by simp
next
  case (Cons e pre)
  let ?body = "Slice (A @ concat (map encode_ext (e # pre)) @ B) sp"
  have shape: "A @ concat (map encode_ext (e # pre)) @ B =
      A @ encode_ext e @ (concat (map encode_ext pre) @ B)"
    by simp
  have shape': "A @ concat (map encode_ext (e # pre)) @ B =
      (A @ encode_ext e) @ concat (map encode_ext pre) @ B"
    by simp
  have "ext_loop ?body (int (length A)) end =
      ext_loop ?body (int (length (A @ encode_ext e))) end"
    unfolding shape using Cons.prems by (intro ext_loop_skip) simp_all
  also have "\<dots> = ext_loop ?body
      (int (length ((A @ encode_ext e) @ concat (map encode_ext pre)))) end"
    unfolding shape' using Cons.prems by (intro Cons.IH) simp_all
  finally show ?case by simp
qed

lemma ext_loop_server_name:
  assumes "name \<noteq> []"
    and "length (concat (map encode_name ((0, name) # others))) < 65536"
    and "int (length (A @ encode_ext (0, server_name_data ((0, name) # others)))) \<le> end"
  shows "ext_loop (Slice (A @ encode_ext (0, server_name_data ((0, name) # others)) @ B) sp)
           (int (length A)) end =
         Ret (map byte_to_char name)"
proof -
  define names where "names = concat (map encode_name ((0, name) # others))"
  define L where "L = length names"
  define body where
    "body = Slice (A @ encode_ext (0, server_name_data ((0, name) # others)) @ B) sp"
  have split: "names = encode_name (0, name) @ concat (map encode_name others)"
    by (simp add: names_def)
  have L: "L < 65536" "int L = 3 + int (length name) + int (length (concat (map encode_name others)))"
    using assms(2) by (simp_all add: L_def names_def length_encode_name)
  have data: "server_name_data ((0, name) # others) = u16_bytes L @ names"
    by (simp add: server_name_data_def names_def L_def)
  have shape1: "body = Slice (A @ u16_bytes 0 @ (u16_bytes (2 + L) @ u16_bytes L @ names @ B)) sp"
    by (simp add: body_def encode_ext_def data L_def)
  have shape3: "body = Slice ((A @ u16_bytes 0 @ u16_bytes (2 + L)) @ u16_bytes L @ (names @ B)) sp"
    by (simp add: shape1)
  have shape4: "body = Slice ((A @ u16_bytes 0 @ u16_bytes (2 + L) @ u16_bytes L) @
      encode_name (0, name) @ (concat (map encode_name others) @ B)) sp"
    by (simp add: shape1 split)
  have "Uint16_at body (int (length A)) = Ret (word_of_nat 0)"
    unfolding shape1 by (rule Uint16_at_u16_bytes) simp
  then have t: "Uint16_at body (int (length A)) = Ret 0"
    by simp
  have "\<exists>es. Uint16_at body (int (length A) + 2) = Ret es"
    unfolding shape1 by (intro Uint16_at_ex) (simp_all add: slice_len_def)
  then obtain es where es: "Uint16_at body (int (length A) + 2) = Ret es"
    by blast
  have "Uint16_at body (int (length (A @ u16_bytes 0 @ u16_bytes (2 + L)))) = Ret (word_of_nat L)"
    unfolding shape3 using L(1) by (rule Uint16_at_u16_bytes)
  then have nl: "Uint16_at body (int (length A) + 4) = Ret (word_of_nat L)"
    by (simp add: add.commute)
  have end_: "int (length A) + 4 + 2 + int L \<le> end"
    using assms(3) by (simp add: length_encode_ext data L_def)
  from assms(1) have pos_name: "1 \<le> int (length name)"
    by (cases name) simp_all
  have "names_loop body (int (length (A @ u16_bytes 0 @ u16_bytes (2 + L) @ u16_bytes L)))
      (int (length A) + 4 + 2 + int L) end = Ret (Some (map byte_to_char name))"
    unfolding shape4 using assms(2) end_ L pos_name
    by (intro names_loop_first) simp_all
  then have loop: "names_loop body (int (length A) + 4 + 2) (int (length A) + 4 + 2 + int L) end =
      Ret (Some (map byte_to_char name))"
    by (simp add: add.commute)
  from end_ L(2) have "int (length A) + 4 < end" "\<not> int (length A) + 4 > end - 2"
    by simp_all
  with t es nl end_ loop L(1) have "ext_loop body (int (length A)) end = Ret (map byte_to_char name)"
    by (subst ext_loop.simps) (simp add: Let_def unat_u16_of_nat del: of_nat_unat)
  then show ?thesis
    by (simp add: body_def)
qed

lemma SNI_hello_body:
  assumes "length fixed = 38" "length sid < 256" "length suites < 65536" "length methods < 256"
    and "length X < 65536"
  shows "SNI (record_of (fixed @ [word_of_nat (length sid)] @ sid @ u16_bytes (length suites) @
              suites @ [word_of_nat (length methods)] @ methods @ u16_bytes (length X) @ X)) =
         ext_loop (Slice (fixed @ [word_of_nat (length sid)] @ sid @ u16_bytes (length suites) @
              suites @ [word_of_nat (length methods)] @ methods @ u16_bytes (length X) @ X) [])
           (int (length (fixed @ [word_of_nat (length sid)] @ sid @ u16_bytes (length suites) @
              suites @ [word_of_nat (length methods)] @ methods @ u16_bytes (length X))))
           (int (length (fixed @ [word_of_nat (length sid)] @ sid @ u16_bytes (length suites) @
              suites @ [word_of_nat (length methods)] @ methods @ u16_bytes (length X) @ X)))"
proof -
  define A1 where "A1 = fixed @ [word_of_nat (length sid)] @ sid"
  define A2 where "A2 = A1 @ u16_bytes (length suites) @ suites"
  define A3 where "A3 = A2 @ [word_of_nat (length methods)] @ methods"
  define H where "H = A3 @ u16_bytes (length X)"
  define b where "b = Slice (H @ X) []"
  define e where "e = slice_len b"
  have body: "fixed @ [word_of_nat (length sid)] @ sid @ u16_bytes (length suites) @
      suites @ [word_of_nat (length methods)] @ methods @ u16_bytes (length X) @ X = H @ X"
    by (simp add: H_def A3_def A2_def A1_def)
  have hdr: "fixed @ [word_of_nat (length sid)] @ sid @ u16_bytes (length suites) @
      suites @ [word_of_nat (length methods)] @ methods @ u16_bytes (length X) = H"
    by (simp add: H_def A3_def A2_def A1_def)
  have len: "int (length A1) = 39 + int (length sid)"
    "int (length A2) = int (length A1) + 2 + int (length suites)"
    "int (length A3) = int (length A2) + 1 + int (length methods)"
    "int (length H) = int (length A3) + 2"
    "e = int (length H) + int (length X)"
    using assms(1) by (simp_all add: A1_def A2_def A3_def H_def e_def b_def slice_len_def)
  have s1: "b = Slice (fixed @ word_of_nat (length sid) #
      (sid @ u16_bytes (length suites) @ suites @ [word_of_nat (length methods)] @ methods @
       u16_bytes (length X) @ X)) []"
    by (simp add: b_def H_def A3_def A2_def A1_def)
  have s2: "b = Slice (A1 @ u16_bytes (length suites) @
      (suites @ [word_of_nat (length methods)] @ methods @ u16_bytes (length X) @ X)) []"
    by (simp add: b_def H_def A3_def A2_def)
  have s3: "b = Slice (A2 @ word_of_nat (length methods) # (methods @ u16_bytes (length X) @ X)) []"
    by (simp add: b_def H_def A3_def)
  have s4: "b = Slice (A3 @ u16_bytes (length X) @ X) []"
    by (simp add: b_def H_def)
  have "index b (int (length fixed)) = Ret (word_of_nat (length sid))"
    unfolding s1 by (rule index_at)
  then have sid: "index b 38 = Ret (word_of_nat (length sid))"
    using assms(1) by simp
  have cs: "Uint16_at b (int (length A1)) = Ret (word_of_nat (length suites))"
    unfolding s2 using assms(3) by (rule Uint16_at_u16_bytes)
  have ct: "index b (int (length A2)) = Ret (word_of_nat (length methods))"
    unfolding s3 by (rule index_at)
  have es: "Uint16_at b (int (length A3)) = Ret (word_of_nat (length X))"
    unfolding s4 using assms(5) by (rule Uint16_at_u16_bytes)
  have pos1: "38 + (1 + int (unat (word_of_nat (length sid) :: byte))) = int (length A1)"
    using assms(2) len(1) by (simp add: unat_byte_of_nat del: of_nat_unat)
  have pos2: "int (length A1) + (2 + int (unat (word_of_nat (length suites) :: 16 word))) =
      int (length A2)"
    using assms(3) len(2) by (simp add: unat_u16_of_nat del: of_nat_unat)
  have pos3: "int (length A2) + (1 + int (unat (word_of_nat (length methods) :: byte))) =
      int (length A3)"
    using assms(4) len(3) by (simp add: unat_byte_of_nat del: of_nat_unat)
  have ext: "int (unat (word_of_nat (length X) :: 16 word)) = int (length X)"
    using assms(5) by (simp add: unat_u16_of_nat del: of_nat_unat)
  have guards: "\<not> 38 > e - 1" "\<not> int (length A1) > e - 2" "\<not> int (length A2) > e - 1"
    "\<not> int (length A3) > e - 2" "\<not> int (length A3) + 2 + int (length X) > e"
    using len by simp_all
  have unfold: "Body (record_of (H @ X)) = b" "slice_len b = e"
    by (simp_all add: record_of_def b_def e_def)
  have "SNI (record_of (H @ X)) = ext_loop b (int (length A3) + 2) (int (length A3) + 2 + int (length X))"
    using guards sid cs ct es
    by (simp add: SNI_def Let_def unfold pos1 pos2 pos3 ext del: of_nat_unat)
  then have "SNI (record_of (H @ X)) = ext_loop (Slice (H @ X) []) (int (length H)) (int (length (H @ X)))"
    using len(4) by (simp add: b_def)
  then show ?thesis
    unfolding body hdr .
qed

text \<open>
  In a well-formed body whose first \<open>server_name\<close> extension starts with an entry of
  name type 0 and a name that is not empty, \<open>SNI\<close> returns that name, whatever the
  entries and the extensions after it.
\<close>

lemma SNI_first_host_name:
  assumes "length fixed = 38" "length sid < 256" "length suites < 65536" "length methods < 256"
    and "length (concat (map encode_ext
            (pre @ (0, server_name_data ((0, name) # others)) # post))) < 65536"
    and "\<forall>e\<in>set pre. fst e \<noteq> 0 \<and> length (snd e) < 65536"
    and "name \<noteq> []"
  shows "SNI (record_of (hello_body fixed sid suites methods
            (pre @ (0, server_name_data ((0, name) # others)) # post))) =
         Ret (map byte_to_char name)"
proof -
  define P where "P = concat (map encode_ext pre)"
  define S where "S = encode_ext (0, server_name_data ((0, name) # others))"
  define Q where "Q = concat (map encode_ext post)"
  define H where "H = fixed @ [word_of_nat (length sid)] @ sid @ u16_bytes (length suites) @
      suites @ [word_of_nat (length methods)] @ methods @ u16_bytes (length (P @ S @ Q))"
  have X: "concat (map encode_ext (pre @ (0, server_name_data ((0, name) # others)) # post)) =
      P @ S @ Q"
    by (simp add: P_def S_def Q_def)
  have lenS: "length S = 6 + length (concat (map encode_name ((0, name) # others)))"
    by (simp add: S_def length_encode_ext server_name_data_def)
  from assms(5) have small: "length (P @ S @ Q) < 65536"
    by (simp only: X)
  with lenS have names: "length (concat (map encode_name ((0, name) # others))) < 65536"
    by simp
  have "SNI (record_of (hello_body fixed sid suites methods
            (pre @ (0, server_name_data ((0, name) # others)) # post))) =
        SNI (record_of (fixed @ [word_of_nat (length sid)] @ sid @ u16_bytes (length suites) @
              suites @ [word_of_nat (length methods)] @ methods @
              u16_bytes (length (P @ S @ Q)) @ (P @ S @ Q)))"
    by (simp only: hello_body_def X)
  also have "\<dots> = ext_loop (Slice (H @ (P @ S @ Q)) []) (int (length H))
      (int (length (H @ (P @ S @ Q))))"
    using SNI_hello_body [OF assms(1-4) small] by (simp add: H_def)
  also have "\<dots> = ext_loop (Slice (H @ concat (map encode_ext pre) @ (S @ Q)) [])
      (int (length H)) (int (length (H @ (P @ S @ Q))))"
    by (simp add: P_def)
  also have "\<dots> = ext_loop (Slice (H @ concat (map encode_ext pre) @ (S @ Q)) [])
      (int (length (H @ concat (map encode_ext pre)))) (int (length (H @ (P @ S @ Q))))"
    using assms(6) lenS by (intro ext_loop_skip_all) (simp_all add: P_def)
  also have "\<dots> = ext_loop
      (Slice ((H @ P) @ encode_ext (0, server_name_data ((0, name) # others)) @ Q) [])
      (int (length (H @ P))) (int (length (H @ (P @ S @ Q))))"
    by (simp add: P_def S_def)
  also have "\<dots> = Ret (map byte_to_char name)"
    using assms(7) names by (intro ext_loop_server_name) (simp_all add: S_def)
  finally show ?thesis .
qed

lemma two_entry_body_encoded:
  "two_entry_body =
     hello_body (take 38 hello_prefix) [] [19, 1] [0]
       [(0, server_name_data [(1, [97]), (0, map char_to_byte ''example.com'')])]"
  by (simp add: two_entry_body_def hello_body_def hello_prefix_def u16_bytes_def encode_ext_def
      server_name_data_def encode_name_def)

lemma example_com_body_encoded:
  "example_com_body =
     hello_body (take 38 hello_prefix) [] [19, 1] [0]
       [(0, server_name_data [(0, map char_to_byte ''example.com'')])]"
  by (simp add: example_com_body_def hello_body_def hello_prefix_def u16_bytes_def encode_ext_def
      server_name_data_def encode_name_def)

text \<open>A body with the single entry \<open>example.com\<close> gives exactly that name.\<close>

lemma SNI_example_com: "SNI (record_of example_com_body) = Ret ''example.com''"
proof -
  have "SNI (record_of (hello_body (take 38 hello_prefix) [] [19, 1] [0]
       ([] @ (0, server_name_data ((0, map char_to_byte ''example.com'') # [])) # []))) =
     Ret (map byte_to_char (map char_to_byte ''example.com''))"
    by (rule SNI_first_host_name)
       (simp_all add: hello_prefix_def encode_ext_def server_name_data_def encode_name_def)
  then show ?thesis
    by (simp add: example_com_body_encoded)
qed

text \<open>
  Claim C5 at the well-formed body where an entry of name type 1, with the name
  \<open>a\<close>, comes before the entry \<open>example.com\<close> of name type 0: the loop over the
  names steps over the three bytes of the first entry's header, not over its name, reads
  the next entries out of the middle of the list and finds no host name.
\<close>

theorem SNI_two_entries:
  "two_entry_body =
     hello_body (take 38 hello_prefix) [] [19, 1] [0]
       [(0, server_name_data [(1, [97]), (0, map char_to_byte ''example.com'')])] \<and>
   SNI (record_of two_entry_body) = Ret []"
proof
  show "two_entry_body =
     hello_body (take 38 hello_prefix) [] [19, 1] [0]
       [(0, server_name_data [(1, [97]), (0, map char_to_byte ''example.com'')])]"
    by (rule two_entry_body_encoded)
  show "SNI (record_of two_entry_body) = Ret []"
    by (simp add: SNI_def record_of_def two_entry_body_def hello_prefix_def Let_def slice_eval
        ext_loop.simps names_loop.simps char_to_byte_def)
qed

section \<open>The loop of the peeker\<close>

lemma chunks_same [simp]: "chunks rd i i = []"
  by (simp add: chunks_def)

lemma chunks_Suc: "i \<le> k \<Longrightarrow> chunks rd i (Suc k) = chunks rd i k @ fst (rd k)"
  by (simp add: chunks_def)

lemma chunks_first: "i < k \<Longrightarrow> chunks rd i k = fst (rd i) @ chunks rd (Suc i) k"
  by (simp add: chunks_def upt_conv_Cons)

text \<open>
  Induction over the runs of the loop that return: one case for each way out of an
  iteration, and one for going round again.
\<close>

lemma peek_loop_induct [consumes 1, case_names exit too_big read_failure parse_panic again]:
  assumes run: "peek_loop rd i pb tls err = Some y"
    and exit: "\<And>i pb tls err. err \<noteq> Some ReadMore \<Longrightarrow>
        P i pb tls err (case SNI tls of Panic \<Rightarrow> Panic | Ret sni \<Rightarrow> Ret ((sni, pb, err), i))"
    and too_big: "\<And>i pb tls chunk readErr. rd i = (chunk, readErr) \<Longrightarrow> 1024 < length chunk \<Longrightarrow>
        P i pb tls (Some ReadMore) Panic"
    and read_failure: "\<And>i pb tls chunk e. rd i = (chunk, Some e) \<Longrightarrow> length chunk \<le> 1024 \<Longrightarrow>
        e \<noteq> EOF \<Longrightarrow>
        P i pb tls (Some ReadMore) (Ret (([], pb @ chunk, Some (ReadFailed e)), Suc i))"
    and parse_panic: "\<And>i pb tls chunk readErr. rd i = (chunk, readErr) \<Longrightarrow>
        length chunk \<le> 1024 \<Longrightarrow> readErr = None \<or> readErr = Some EOF \<Longrightarrow>
        parseTLSHandshake (Bytes (pb @ chunk)) = Panic \<Longrightarrow> P i pb tls (Some ReadMore) Panic"
    and again: "\<And>i pb tls chunk readErr tls' err' y. rd i = (chunk, readErr) \<Longrightarrow>
        length chunk \<le> 1024 \<Longrightarrow> readErr = None \<or> readErr = Some EOF \<Longrightarrow>
        parseTLSHandshake (Bytes (pb @ chunk)) = Ret (tls', err') \<Longrightarrow>
        P (Suc i) (pb @ chunk) tls' err' y \<Longrightarrow> P i pb tls (Some ReadMore) y"
  shows "P i pb tls err y"
proof -
  let ?Q = "\<lambda>rd' i pb tls err y. rd' = rd \<longrightarrow> P i pb tls err y"
  have "?Q rd i pb tls err y"
  proof (rule peek_loop.raw_induct [where P = ?Q, OF _ run])
    fix f rd' i pb tls err y
    assume IH: "\<And>rd' i pb tls err y. f rd' i pb tls err = Some y \<Longrightarrow> ?Q rd' i pb tls err y"
    assume body: "(if err \<noteq> None \<and> errors_Is (the err) ReadMore
      then case rd' i of
           (chunk, readErr) \<Rightarrow>
             if 1024 < length chunk then Some Panic
             else let pb' = pb @ chunk
                  in if readErr \<noteq> None \<and>
                        (readErr \<noteq> Some EOF \<or> \<not> errors_Is (the err) ReadMore)
                     then Some (Ret (([], pb', Some (ReadFailed (the readErr))), Suc i))
                     else case parseTLSHandshake (Bytes pb') of
                          Panic \<Rightarrow> Some Panic
                          | Ret (tls', err') \<Rightarrow> f rd' (Suc i) pb' tls' err'
      else case SNI tls of Panic \<Rightarrow> Some Panic
           | Ret sni \<Rightarrow> Some (Ret ((sni, pb, err), i))) = Some y"
    show "?Q rd' i pb tls err y"
    proof
      assume rd': "rd' = rd"
      show "P i pb tls err y"
      proof (cases "err = Some ReadMore")
        case False
        then have cond: "\<not> (err \<noteq> None \<and> errors_Is (the err) ReadMore)"
          by (cases err) auto
        from body have "(case SNI tls of Panic \<Rightarrow> Some Panic
            | Ret sni \<Rightarrow> Some (Ret ((sni, pb, err), i))) = Some y"
          by (simp only: if_not_P [OF cond])
        then have "y = (case SNI tls of Panic \<Rightarrow> Panic | Ret sni \<Rightarrow> Ret ((sni, pb, err), i))"
          by (simp split: go.splits)
        with False exit show ?thesis
          by simp
      next
        case loop: True
        obtain chunk readErr where rd: "rd i = (chunk, readErr)"
          by (cases "rd i")
        show ?thesis
        proof (cases "1024 < length chunk")
          case True
          with body loop rd rd' have "y = Panic" by simp
          with too_big [OF rd True] loop show ?thesis by simp
        next
          case small: False
          show ?thesis
          proof (cases "readErr = None \<or> readErr = Some EOF")
            case False
            then obtain e where e: "readErr = Some e" "e \<noteq> EOF" by auto
            with body loop rd rd' small
            have "y = Ret (([], pb @ chunk, Some (ReadFailed e)), Suc i)" by simp
            with read_failure [of i chunk e pb tls] rd e small loop show ?thesis by simp
          next
            case benign: True
            show ?thesis
            proof (cases "parseTLSHandshake (Bytes (pb @ chunk))")
              case Panic
              with body loop rd rd' small benign have "y = Panic" by auto
              with parse_panic [OF rd _ benign Panic] small loop show ?thesis by simp
            next
              case (Ret p)
              obtain tls' err' where p: "p = (tls', err')" by (cases p)
              from body loop rd rd' small benign Ret p
              have "f rd (Suc i) (pb @ chunk) tls' err' = Some y"
                by (auto simp: Let_def)
              then have "P (Suc i) (pb @ chunk) tls' err' y"
                using IH by blast
              with again [OF rd _ benign] Ret p small loop show ?thesis by simp
            qed
          qed
        qed
      qed
    qed
  qed
  then show ?thesis by simp
qed

lemma peek_loop_captures:
  assumes "peek_loop rd i pb tls err = Some y"
  shows "\<forall>sni pb' err' k. y = Ret ((sni, pb', err'), k) \<longrightarrow> i \<le> k \<and> pb' = pb @ chunks rd i k"
  using assms
proof (induction rule: peek_loop_induct)
  case (exit i pb tls err)
  show ?case by (auto split: go.splits)
next
  case (read_failure i pb tls chunk e)
  then show ?case by (simp add: chunks_first)
next
  case (again i pb tls chunk readErr tls' err' y)
  show ?case
  proof (intro allI impI)
    fix sni pb' err'' k
    assume "y = Ret ((sni, pb', err''), k)"
    with again.IH have k: "Suc i \<le> k" and pb': "pb' = (pb @ chunk) @ chunks rd (Suc i) k"
      by blast+
    from k have "chunks rd i k = fst (rd i) @ chunks rd (Suc i) k"
      by (intro chunks_first) simp
    with k pb' again.hyps(1) show "i \<le> k \<and> pb' = pb @ chunks rd i k"
      by simp
  qed
qed simp_all

lemma peek_loop_verdict:
  assumes "peek_loop rd i pb tls err = Some y"
  shows "\<forall>sni pb' err' k. y = Ret ((sni, pb', err'), k) \<longrightarrow> err' \<noteq> Some ReadMore"
  using assms
proof (induction rule: peek_loop_induct)
  case (exit i pb tls err)
  then show ?case by (auto split: go.splits)
qed simp_all

lemma peek_loop_never_returns:
  assumes "peek_loop rd i pb tls err = Some y"
  shows "\<not> ((\<forall>j\<ge>i. rd j = ([], Some EOF)) \<and> err = Some ReadMore \<and>
            (\<exists>t. parseTLSHandshake (Bytes pb) = Ret (t, Some ReadMore)))"
  using assms
proof (induction rule: peek_loop_induct)
  case (again i pb tls chunk readErr tls' err' y)
  show ?case
  proof
    assume a: "(\<forall>j\<ge>i. rd j = ([], Some EOF)) \<and> Some ReadMore = Some ReadMore \<and>
            (\<exists>t. parseTLSHandshake (Bytes pb) = Ret (t, Some ReadMore))"
    with again.hyps(1) have "chunk = []" by simp
    with a again.hyps(4) have "err' = Some ReadMore" by auto
    with a \<open>chunk = []\<close> again.IH show False by auto
  qed
qed auto

lemma peek_loop_spins:
  assumes "\<forall>j\<ge>i. rd j = ([], Some EOF)"
    and "parseTLSHandshake (Bytes pb) = Ret (t, Some ReadMore)"
  shows "peek_loop rd i pb tls (Some ReadMore) = None"
proof (cases "peek_loop rd i pb tls (Some ReadMore)")
  case None
  then show ?thesis .
next
  case (Some y)
  from peek_loop_never_returns [OF this] assms show ?thesis
    by blast
qed

lemma peek_loop_ReadMore_step:
  assumes "rd i = (chunk, readErr)" "length chunk \<le> 1024" "readErr = None \<or> readErr = Some EOF"
    and "parseTLSHandshake (Bytes (pb @ chunk)) = Ret (tls', err')"
  shows "peek_loop rd i pb tls (Some ReadMore) = peek_loop rd (Suc i) (pb @ chunk) tls' err'"
  using assms by (subst peek_loop.simps) auto

lemma peek_loop_read_failure:
  assumes "rd i = (chunk, Some e)" "length chunk \<le> 1024" "e \<noteq> EOF"
  shows "peek_loop rd i pb tls (Some ReadMore) =
         Some (Ret (([], pb @ chunk, Some (ReadFailed e)), Suc i))"
  using assms by (subst peek_loop.simps) simp

lemma peek_loop_unroll:
  "still_reading rd k \<Longrightarrow>
   \<exists>tls. peek_loop rd 0 [] TLSRecord_zero (Some ReadMore) =
         peek_loop rd k (chunks rd 0 k) tls (Some ReadMore)"
proof (induction k)
  case 0
  show ?case by (auto simp: chunks_def)
next
  case (Suc k)
  from Suc.prems have "still_reading rd k"
    by (simp add: still_reading_def)
  with Suc.IH obtain tls where tls: "peek_loop rd 0 [] TLSRecord_zero (Some ReadMore) =
         peek_loop rd k (chunks rd 0 k) tls (Some ReadMore)"
    by blast
  from Suc.prems have k: "length (fst (rd k)) \<le> 1024" "snd (rd k) = None \<or> snd (rd k) = Some EOF"
    by (simp_all add: still_reading_def)
  from Suc.prems have "case parseTLSHandshake (Bytes (chunks rd 0 (Suc k))) of
           Panic \<Rightarrow> False | Ret (tls, err) \<Rightarrow> err = Some ReadMore"
    by (simp add: still_reading_def)
  then obtain tls' where p:
    "parseTLSHandshake (Bytes (chunks rd 0 (Suc k))) = Ret (tls', Some ReadMore)"
    by (cases "parseTLSHandshake (Bytes (chunks rd 0 (Suc k)))") auto
  have "peek_loop rd k (chunks rd 0 k) tls (Some ReadMore) =
        peek_loop rd (Suc k) (chunks rd 0 k @ fst (rd k)) tls' (Some ReadMore)"
    using k p
    by (intro peek_loop_ReadMore_step [where readErr = "snd (rd k)"]) (simp_all add: chunks_Suc)
  with tls show ?case
    by (auto simp: chunks_Suc)
qed

lemma peek_loop_verdict_step:
  assumes "rd i = (chunk, readErr)" "length chunk \<le> 1024" "readErr = None \<or> readErr = Some EOF"
    and "parseTLSHandshake (Bytes (pb @ chunk)) = Ret (tls', err')" "err' \<noteq> Some ReadMore"
  shows "\<exists>sni. peek_loop rd i pb tls (Some ReadMore) = Some (Ret ((sni, pb @ chunk, err'), Suc i))"
proof -
  obtain sni where sni: "SNI tls' = Ret sni"
    using SNI_safe [of tls'] by blast
  have "peek_loop rd i pb tls (Some ReadMore) = peek_loop rd (Suc i) (pb @ chunk) tls' err'"
    using assms(1-4) by (rule peek_loop_ReadMore_step)
  also have "\<dots> = Some (Ret ((sni, pb @ chunk, err'), Suc i))"
  proof -
    from assms(5) have cond: "\<not> (err' \<noteq> None \<and> errors_Is (the err') ReadMore)"
      by (cases err') auto
    show ?thesis
      by (subst peek_loop.simps) (simp only: if_not_P [OF cond] sni go.case)
  qed
  finally show ?thesis by blast
qed

section \<open>What the peeker returns\<close>

text \<open>
  Claim C2. Whenever \<open>peekClientHello\<close> returns, with a server name, with an empty
  one, with \<open>NotTLS\<close> or with a read error, the buffer it returns holds the bytes of
  all the reads it made, in order, and nothing else; and it does return, with the bytes
  of all its reads, at the first read that fails or that lets the parser decide.
\<close>

theorem peekClientHello_captures:
  "(peekClientHello rd = Some (Ret ((sni, pb, err), k)) \<longrightarrow> pb = chunks rd 0 k) \<and>
   (still_reading rd n \<and> decisive rd n \<longrightarrow>
      (\<exists>name verdict.
         peekClientHello rd = Some (Ret ((name, chunks rd 0 (Suc n), verdict), Suc n))))"
proof (intro conjI impI)
  assume "peekClientHello rd = Some (Ret ((sni, pb, err), k))"
  then show "pb = chunks rd 0 k"
    using peek_loop_captures [of rd 0 "[]" TLSRecord_zero "Some ReadMore"]
    by (simp add: peekClientHello_def)
next
  assume a: "still_reading rd n \<and> decisive rd n"
  obtain chunk readErr where rd: "rd n = (chunk, readErr)"
    by (cases "rd n")
  from a rd have small: "length chunk \<le> 1024"
    by (simp add: decisive_def)
  from a obtain tls where start: "peekClientHello rd =
      peek_loop rd n (chunks rd 0 n) tls (Some ReadMore)"
    using peek_loop_unroll [of rd n] by (auto simp: peekClientHello_def)
  have next_: "chunks rd 0 (Suc n) = chunks rd 0 n @ chunk"
    using rd by (simp add: chunks_Suc)
  show "\<exists>name verdict.
         peekClientHello rd = Some (Ret ((name, chunks rd 0 (Suc n), verdict), Suc n))"
  proof (cases "\<exists>e. readErr = Some e \<and> e \<noteq> EOF")
    case True
    then obtain e where e: "readErr = Some e" "e \<noteq> EOF" by blast
    with rd small have "peek_loop rd n (chunks rd 0 n) tls (Some ReadMore) =
        Some (Ret (([], chunks rd 0 n @ chunk, Some (ReadFailed e)), Suc n))"
      by (intro peek_loop_read_failure) simp_all
    with start next_ show ?thesis by simp
  next
    case False
    then have benign: "readErr = None \<or> readErr = Some EOF"
      by (cases readErr) auto
    with a rd have "case parseTLSHandshake (Bytes (chunks rd 0 (Suc n))) of
              Panic \<Rightarrow> False | Ret (tls, err) \<Rightarrow> err \<noteq> Some ReadMore"
      by (auto simp: decisive_def)
    then obtain tls' err' where p: "parseTLSHandshake (Bytes (chunks rd 0 n @ chunk)) = Ret (tls', err')"
      and v: "err' \<noteq> Some ReadMore"
      unfolding next_ by (cases "parseTLSHandshake (Bytes (chunks rd 0 n @ chunk))") auto
    from peek_loop_verdict_step [where rd = rd and tls = tls, OF rd small benign p v] start next_
    show ?thesis by auto
  qed
qed

text \<open>The four ways of returning, each on a reader of its own.\<close>

lemma replicate_two: "replicate 2 x = [x, x]"
  by (simp add: numeral_2_eq_2)

lemmas peek_eval = replicate_two peekClientHello_def peek_loop.simps parseTLSHandshake_def Bytes_def
  smallBufferSize_def TLSRecord_zero_def SNI_def Let_def slice_eval ext_loop.simps names_loop.simps

lemma peek_reader_hello:
  "peekClientHello reader_hello = Some (Ret ((''example.com'', example_com_record, None), 3))"
  by (simp add: peek_eval reader_hello_def example_com_record_def example_com_body_def
      hello_prefix_def)

lemma peek_reader_no_name:
  "peekClientHello reader_no_name = Some (Ret (([], [22, 3, 3, 0, 0], None), 1))"
  by (simp add: peek_eval reader_no_name_def)

lemma peek_reader_plain:
  "peekClientHello reader_plain = Some (Ret (([], [71, 69, 84, 32, 47], Some NotTLS), 1))"
  by (simp add: peek_eval reader_plain_def)

lemma peek_reader_reset:
  "peekClientHello reader_reset =
   Some (Ret (([], [22, 3, 1, 0, 67, 1, 0, 0],
               Some (ReadFailed (IOFailure ''connection reset by peer''))), 2))"
  by (simp add: peek_eval reader_reset_def)

theorem peekClientHello_captures_witness:
  "decisive reader_hello 2 \<and> still_reading reader_hello 2 \<and>
   peekClientHello reader_hello =
     Some (Ret ((''example.com'', chunks reader_hello 0 3, None), 3)) \<and>
   peekClientHello reader_no_name = Some (Ret (([], chunks reader_no_name 0 1, None), 1)) \<and>
   peekClientHello reader_plain = Some (Ret (([], chunks reader_plain 0 1, Some NotTLS), 1)) \<and>
   peekClientHello reader_reset =
     Some (Ret (([], chunks reader_reset 0 2,
                 Some (ReadFailed (IOFailure ''connection reset by peer''))), 2))"
proof -
  have "still_reading reader_hello (Suc (Suc 0))"
    by (simp add: still_reading_def All_less_Suc chunks_def reader_hello_def
        example_com_record_def example_com_body_def hello_prefix_def parseTLSHandshake_def
        Bytes_def smallBufferSize_def slice_eval replicate_two upt_rec)
  then have s: "still_reading reader_hello 2"
    by (simp add: numeral_2_eq_2)
  have d: "decisive reader_hello 2"
    by (simp add: decisive_def chunks_def reader_hello_def example_com_record_def
        example_com_body_def hello_prefix_def parseTLSHandshake_def Bytes_def smallBufferSize_def
        slice_eval upt_rec)
  from s d peekClientHello_captures [of reader_hello _ _ _ _ 2]
  have "\<exists>name verdict. peekClientHello reader_hello =
      Some (Ret ((name, chunks reader_hello 0 (Suc 2), verdict), Suc 2))"
    by blast
  with peek_reader_hello have "peekClientHello reader_hello =
     Some (Ret ((''example.com'', chunks reader_hello 0 3, None), 3))"
    by (auto simp: numeral_3_eq_3)
  moreover note peekClientHello_captures [of reader_no_name, THEN conjunct1, rule_format, OF peek_reader_no_name]
    peekClientHello_captures [of reader_plain, THEN conjunct1, rule_format, OF peek_reader_plain]
    peekClientHello_captures [of reader_reset, THEN conjunct1, rule_format, OF peek_reader_reset]
  ultimately show ?thesis
    using s d peek_reader_no_name peek_reader_plain peek_reader_reset by simp
qed

text \<open>
  Claim C6. When a read fails with an error other than \<open>io.EOF\<close> while the peeker
  is still reading, \<open>peekClientHello\<close> returns that error, wrapped, with all the bytes
  read, and \<open>HandleConnection\<close> returns an error without calling \<open>Get\<close>.
\<close>

theorem read_failure_aborts:
  assumes "still_reading rd k" and "rd k = (chunk, Some e)" and "e \<noteq> EOF"
    and "length chunk \<le> 1024"
  shows "peekClientHello rd =
           Some (Ret (([], chunks rd 0 (Suc k), Some (ReadFailed e)), Suc k)) \<and>
         (reads c = rd \<longrightarrow>
          HandleConnection endpointsDB dial c =
            Some (Ret \<lparr>lookups = [],
                       outcome = (case arm_deadline c of Some d \<Rightarrow> SetDeadlineError d
                                  | None \<Rightarrow> ReadingError (ReadFailed e))\<rparr>))"
proof -
  from peek_loop_unroll [OF assms(1)] obtain tls where
    "peekClientHello rd = peek_loop rd k (chunks rd 0 k) tls (Some ReadMore)"
    by (auto simp: peekClientHello_def)
  also have "\<dots> = Some (Ret (([], chunks rd 0 k @ chunk, Some (ReadFailed e)), Suc k))"
    using assms(2,4,3) by (rule peek_loop_read_failure)
  finally have peek:
    "peekClientHello rd = Some (Ret (([], chunks rd 0 (Suc k), Some (ReadFailed e)), Suc k))"
    using assms(2) by (simp add: chunks_Suc)
  then show ?thesis
    by (simp add: HandleConnection_def split: option.splits)
qed

theorem read_failure_aborts_witness:
  "still_reading reader_reset 1 \<and>
   HandleConnection [a_com_entry, wildcard_entry] (\<lambda>address. True) (conn_of reader_reset) =
     Some (Ret \<lparr>lookups = [],
                outcome = ReadingError (ReadFailed (IOFailure ''connection reset by peer''))\<rparr>)"
proof -
  have s: "still_reading reader_reset 1"
    by (simp add: still_reading_def chunks_def reader_reset_def parseTLSHandshake_def Bytes_def
        slice_eval)
  have r: "reader_reset 1 = ([1, 0, 0], Some (IOFailure ''connection reset by peer''))"
    by (simp add: reader_reset_def)
  from read_failure_aborts [OF s r, of "conn_of reader_reset" "[a_com_entry, wildcard_entry]" "\<lambda>address. True"] s
  show ?thesis
    by (simp add: conn_of_def)
qed

text \<open>
  Claim C4 at a reader that delivers the five bytes of a record header and is then at
  its end, as a \<open>bytes.Reader\<close> is: every further read returns no bytes and
  \<open>io.EOF\<close>, the test after the read lets \<open>io.EOF\<close> through because the parser
  still asks for more, the parser asks for more again, and neither the peeker nor the
  handler ever returns. (A connection closed by its client answers the same way until its
  read deadline has passed.)
\<close>

theorem peekClientHello_spins:
  "peekClientHello reader_closed = None \<and>
   HandleConnection endpointsDB dial (conn_of reader_closed) = None"
proof -
  have p: "parseTLSHandshake (Bytes [22, 3, 1, 0, 10]) = Ret (TLSRecord_zero, Some ReadMore)"
    by (simp add: parseTLSHandshake_def slice_eval)
  have "peekClientHello reader_closed =
        peek_loop reader_closed (Suc 0) ([] @ [22, 3, 1, 0, 10]) TLSRecord_zero (Some ReadMore)"
    unfolding peekClientHello_def
    by (rule peek_loop_ReadMore_step [where readErr = None]) (simp_all add: reader_closed_def p)
  also have "\<dots> = None"
    by (rule peek_loop_spins [where t = TLSRecord_zero]) (simp_all add: reader_closed_def p)
  finally have "peekClientHello reader_closed = None" .
  then show ?thesis
    by (simp add: HandleConnection_def conn_of_def)
qed

text \<open>The same holds after any incomplete record: see \<open>peek_loop_spins\<close>.\<close>

text \<open>A client that closes before sending anything makes the parser index an empty buffer.\<close>

lemma peekClientHello_closed_at_once: "peekClientHello (\<lambda>i. ([], Some EOF)) = Some Panic"
  by (simp add: peekClientHello_def peek_loop.simps parseTLSHandshake_def index_def)

text \<open>The loop is left only with a verdict other than \<open>ReadMore\<close>.\<close>

lemma peekClientHello_verdict:
  "peekClientHello rd = Some (Ret ((sni, pb, err), k)) \<Longrightarrow> err \<noteq> Some ReadMore"
  using peek_loop_verdict [of rd 0 "[]" TLSRecord_zero "Some ReadMore"]
  by (simp add: peekClientHello_def)

section \<open>Buffers shorter than a record header\<close>

text \<open>
  A buffer of one or two bytes that starts with byte 22 has its version read by
  \<open>buf[1:3]\<close> from the spare capacity of the \<open>bytes.Buffer\<close>, which is zero:
  the version is not one of the four, and the verdict is \<open>NotTLS\<close>.
\<close>

lemma NotTLS_on_short_buffer:
  assumes "pb \<noteq> []" "length pb \<le> 2" "pb ! 0 = 22"
  shows "parseTLSHandshake (Bytes pb) = Ret (TLSRecord_zero, Some NotTLS)"
proof -
  from assms obtain b where "pb = [22] \<or> pb = [22, b]"
    by (cases pb; cases "tl pb") auto
  note shape = this
  have s1: "replicate 63 (0 :: byte) = 0 # 0 # 0 # 0 # replicate 59 0"
    and s2: "replicate 62 (0 :: byte) = 0 # 0 # 0 # replicate 59 0"
    by (simp_all add: numeral_eq_Suc)
  from shape show ?thesis
  proof
    assume "pb = [22]"
    then show ?thesis
      by (simp add: parseTLSHandshake_def Bytes_def smallBufferSize_def slice_eval s1)
  next
    assume pb: "pb = [22, b]"
    define n where "n = unat b"
    have "n < 256"
      using unsigned_less [of b, where 'a = nat] by (simp add: n_def)
    then have "n * 256 + 0 < 65536"
      by simp
    then have "unat (word_of_nat (n * 256 + 0) :: 16 word) = n * 256 + 0"
      by (rule unat_u16_of_nat)
    moreover have "be16 b 0 = word_of_nat (n * 256 + 0)"
      by (simp add: be16_def n_def)
    ultimately have u: "unat (be16 b 0) = n * 256 + 0"
      by (simp only:)
    have version: "be16 b 0 \<notin> {0x0301, 0x0302, 0x0303, 0x0304}"
    proof
      assume "be16 b 0 \<in> {0x0301, 0x0302, 0x0303, 0x0304}"
      then have "unat (be16 b 0) \<in> {769, 770, 771, 772}"
        by auto
      with u have "n * 256 \<in> {769, 770, 771, 772}"
        by (simp del: of_nat_unat)
      then have "n * 256 = 769 \<or> n * 256 = 770 \<or> n * 256 = 771 \<or> n * 256 = 772"
        by blast
      then show False
        by presburger
    qed
    with pb show ?thesis
      by (simp add: parseTLSHandshake_def Bytes_def smallBufferSize_def index_def slice_len_def
          slice_cap_def subslice_def Uint16_at_def Uint16_def s2)
  qed
qed

text \<open>
  The sum \<open>size + 5\<close> is computed in 16 bits. From a declared size of 65531 on it
  wraps around to a number below 5, the test against the length of the buffer passes, and
  the slice expression \<open>buf[5 : size+5]\<close> panics.
\<close>

lemma Panic_on_size_wrap:
  assumes "5 \<le> length pb" "pb ! 0 = 22"
    and "be16 (pb ! 1) (pb ! 2) \<in> {0x0301, 0x0302, 0x0303, 0x0304}"
    and "65531 \<le> unat (be16 (pb ! 3) (pb ! 4))"
  shows "parseTLSHandshake (Bytes pb) = Panic"
proof -
  define buf where "buf = Bytes pb"
  define rsize where "rsize = be16 (pb ! 3) (pb ! 4)"
  have el: "elems buf = pb" and len: "slice_len buf = int (length pb)"
    by (simp_all add: buf_def)
  from assms(1) have len5: "5 \<le> slice_len buf"
    by (simp add: len)
  then have "Uint16_at buf 1 = Ret (be16 (elems buf ! nat 1) (elems buf ! nat (1 + 1)))"
    by (intro Uint16_at_in) simp_all
  then have version: "Uint16_at buf 1 = Ret (be16 (pb ! 1) (pb ! 2))"
    by (simp add: el)
  from len5 have "Uint16_at buf 3 = Ret (be16 (elems buf ! nat 3) (elems buf ! nat (3 + 1)))"
    by (intro Uint16_at_in) simp_all
  then have rs: "Uint16_at buf 3 = Ret rsize"
    by (simp add: el rsize_def)
  have "unat rsize < 65536"
    using unsigned_less [of rsize, where 'a = nat] by simp
  with assms(4) have "unat (rsize + 5) = unat rsize + 5 - 65536"
    by (simp add: unat_word_ariths rsize_def mod_if)
  with \<open>unat rsize < 65536\<close> have wrap: "int (unat (rsize + 5)) < 5"
    by simp
  with len5 have fits: "\<not> int (unat (rsize + 5)) > slice_len buf"
    by simp
  from wrap have "subslice buf 5 (int (unat (rsize + 5))) = Panic"
    by (simp add: subslice_def del: of_nat_unat)
  with len5 assms(2,3) version rs fits el show ?thesis
    unfolding buf_def [symmetric]
    by (auto simp add: parseTLSHandshake_def index_def simp del: of_nat_unat)
qed

lemma SNI_TLSRecord_zero: "SNI TLSRecord_zero = Ret []"
  by (simp add: SNI_def TLSRecord_zero_def slice_len_def)

lemma peekClientHello_short_first_read:
  assumes "rd 0 = (pb, readErr)" "readErr = None \<or> readErr = Some EOF"
    and "pb \<noteq> []" "length pb \<le> 2" "pb ! 0 = 22"
  shows "peekClientHello rd = Some (Ret (([], pb, Some NotTLS), 1))"
proof -
  have p: "parseTLSHandshake (Bytes ([] @ pb)) = Ret (TLSRecord_zero, Some NotTLS)"
    using assms(3-5) by (simp add: NotTLS_on_short_buffer)
  have "peekClientHello rd = peek_loop rd (Suc 0) ([] @ pb) TLSRecord_zero (Some NotTLS)"
    unfolding peekClientHello_def
    using assms(1) _ assms(2) p by (rule peek_loop_ReadMore_step) (use assms(4) in simp)
  also have "\<dots> = Some (Ret (([], pb, Some NotTLS), 1))"
    by (subst peek_loop.simps) (simp add: SNI_TLSRecord_zero)
  finally show ?thesis .
qed

text \<open>
  Claim C1 on the buffers it names, those shorter than the header and those that declare
  a size near the maximum: the claim asks for \<open>ReadMore\<close>. A buffer of one or two
  bytes that starts with byte 22 is taken not to be TLS, and so is the stream of a client
  whose first segment has one or two bytes, whatever follows; the empty buffer makes
  \<open>buf[0]\<close> panic; a buffer with the header of a record that declares 65531 bytes or
  more makes \<open>buf[5 : size+5]\<close> panic.
\<close>

theorem parseTLSHandshake_short_buffer:
  "(pb \<noteq> [] \<and> length pb \<le> 2 \<and> pb ! 0 = 22 \<longrightarrow>
      parseTLSHandshake (Bytes pb) = Ret (TLSRecord_zero, Some NotTLS)) \<and>
   (rd 0 = (pb, readErr) \<and> (readErr = None \<or> readErr = Some EOF) \<and>
    pb \<noteq> [] \<and> length pb \<le> 2 \<and> pb ! 0 = 22 \<longrightarrow>
      peekClientHello rd = Some (Ret (([], pb, Some NotTLS), 1))) \<and>
   parseTLSHandshake (Bytes []) = Panic \<and>
   (5 \<le> length pb \<and> pb ! 0 = 22 \<and>
    be16 (pb ! 1) (pb ! 2) \<in> {0x0301, 0x0302, 0x0303, 0x0304} \<and>
    65531 \<le> unat (be16 (pb ! 3) (pb ! 4)) \<longrightarrow>
      parseTLSHandshake (Bytes pb) = Panic)"
proof (intro conjI impI)
  assume "pb \<noteq> [] \<and> length pb \<le> 2 \<and> pb ! 0 = 22"
  then show "parseTLSHandshake (Bytes pb) = Ret (TLSRecord_zero, Some NotTLS)"
    by (intro NotTLS_on_short_buffer) simp_all
next
  assume "rd 0 = (pb, readErr) \<and> (readErr = None \<or> readErr = Some EOF) \<and>
    pb \<noteq> [] \<and> length pb \<le> 2 \<and> pb ! 0 = 22"
  then show "peekClientHello rd = Some (Ret (([], pb, Some NotTLS), 1))"
    by (intro peekClientHello_short_first_read [where readErr = readErr]) simp_all
next
  show "parseTLSHandshake (Bytes []) = Panic"
    by (simp add: parseTLSHandshake_def index_def)
next
  assume "5 \<le> length pb \<and> pb ! 0 = 22 \<and>
    be16 (pb ! 1) (pb ! 2) \<in> {0x0301, 0x0302, 0x0303, 0x0304} \<and>
    65531 \<le> unat (be16 (pb ! 3) (pb ! 4))"
  then show "parseTLSHandshake (Bytes pb) = Panic"
    by (intro Panic_on_size_wrap) simp_all
qed

theorem parseTLSHandshake_short_buffer_witness:
  "parseTLSHandshake (Bytes [22]) = Ret (TLSRecord_zero, Some NotTLS) \<and>
   parseTLSHandshake (Bytes [22, 3]) = Ret (TLSRecord_zero, Some NotTLS) \<and>
   chunks reader_split 0 2 = example_com_record \<and>
   peekClientHello reader_split = Some (Ret (([], [22], Some NotTLS), 1)) \<and>
   length [22, 3, 1, 255, 251 :: byte] < 5 + unat (be16 255 251) \<and>
   parseTLSHandshake (Bytes [22, 3, 1, 255, 251]) = Panic"
proof (intro conjI)
  show "parseTLSHandshake (Bytes [22]) = Ret (TLSRecord_zero, Some NotTLS)"
    using parseTLSHandshake_short_buffer [of "[22]", THEN conjunct1] by simp
  show "parseTLSHandshake (Bytes [22, 3]) = Ret (TLSRecord_zero, Some NotTLS)"
    using parseTLSHandshake_short_buffer [of "[22, 3]", THEN conjunct1] by simp
  show "chunks reader_split 0 2 = example_com_record"
    by (simp add: chunks_def reader_split_def upt_rec)
  have "reader_split 0 = ([22], None)"
    by (simp add: reader_split_def example_com_record_def)
  then show "peekClientHello reader_split = Some (Ret (([], [22], Some NotTLS), 1))"
    using parseTLSHandshake_short_buffer [of "[22]" reader_split None,
        THEN conjunct2, THEN conjunct1]
    by simp
  show "length [22, 3, 1, 255, 251 :: byte] < 5 + unat (be16 255 251)"
    by (simp add: be16_def)
  show "parseTLSHandshake (Bytes [22, 3, 1, 255, 251]) = Panic"
    using parseTLSHandshake_short_buffer [of "[22, 3, 1, 255, 251]",
        THEN conjunct2, THEN conjunct2, THEN conjunct2]
    by (simp add: be16_def)
qed

section \<open>Matching and the derivative matcher\<close>

inductive_cases matches_LiteralE: "matches (Literal c) w"
inductive_cases matches_AnyE: "matches AnyCharNotNL w"







section \<open>Looking up an endpoint\<close>



lemma Get_Inr_iff:
  "Get db h = Inr ep \<longleftrightarrow>
   (\<exists>i<length db. db ! i = ep \<and> MatchString (regex ep) h \<and>
       (\<forall>j<i. \<not> MatchString (regex (db ! j)) h))"
proof (induction db)
  case Nil
  show ?case by simp
next
  case (Cons e db)
  show ?case
  proof (cases "MatchString (regex e) h")
    case True
    have "(\<exists>i<length (e # db). (e # db) ! i = ep \<and> MatchString (regex ep) h \<and>
       (\<forall>j<i. \<not> MatchString (regex ((e # db) ! j)) h)) \<longleftrightarrow> e = ep"
    proof
      assume "\<exists>i<length (e # db). (e # db) ! i = ep \<and> MatchString (regex ep) h \<and>
       (\<forall>j<i. \<not> MatchString (regex ((e # db) ! j)) h)"
      then obtain i where i: "(e # db) ! i = ep" "\<forall>j<i. \<not> MatchString (regex ((e # db) ! j)) h"
        by blast
      have "i = 0"
      proof (rule ccontr)
        assume "i \<noteq> 0"
        then have "0 < i" by simp
        with i(2) have "\<not> MatchString (regex ((e # db) ! 0)) h" by blast
        with True show False by simp
      qed
      with i(1) show "e = ep" by simp
    next
      assume "e = ep"
      with True show "\<exists>i<length (e # db). (e # db) ! i = ep \<and> MatchString (regex ep) h \<and>
       (\<forall>j<i. \<not> MatchString (regex ((e # db) ! j)) h)"
        by (intro exI [of _ 0]) simp
    qed
    with True show ?thesis by simp
  next
    case False
    have "(\<exists>i<length (e # db). (e # db) ! i = ep \<and> MatchString (regex ep) h \<and>
       (\<forall>j<i. \<not> MatchString (regex ((e # db) ! j)) h)) \<longleftrightarrow>
       (\<exists>i<length db. db ! i = ep \<and> MatchString (regex ep) h \<and>
       (\<forall>j<i. \<not> MatchString (regex (db ! j)) h))" (is "?L \<longleftrightarrow> ?R")
    proof
      assume ?L
      then obtain i where i: "i < length (e # db)" "(e # db) ! i = ep" "MatchString (regex ep) h"
        "\<forall>j<i. \<not> MatchString (regex ((e # db) ! j)) h"
        by blast
      from i(2,3) False have "i \<noteq> 0" by (cases i) auto
      then obtain i' where i': "i = Suc i'" by (cases i) auto
      have "\<forall>j<i'. \<not> MatchString (regex (db ! j)) h"
      proof (intro allI impI)
        fix j assume "j < i'"
        then have "Suc j < i" using i' by simp
        with i(4) have "\<not> MatchString (regex ((e # db) ! Suc j)) h" by blast
        then show "\<not> MatchString (regex (db ! j)) h" by simp
      qed
      with i i' show ?R by (intro exI [of _ i']) simp
    next
      assume ?R
      then obtain i where i: "i < length db" "db ! i = ep" "MatchString (regex ep) h"
        "\<forall>j<i. \<not> MatchString (regex (db ! j)) h"
        by blast
      have "\<forall>j<Suc i. \<not> MatchString (regex ((e # db) ! j)) h"
      proof (intro allI impI)
        fix j assume "j < Suc i"
        then show "\<not> MatchString (regex ((e # db) ! j)) h"
          using False i(4) by (cases j) auto
      qed
      with i show ?L by (intro exI [of _ "Suc i"]) simp
    qed
    with False Cons.IH show ?thesis by simp
  qed
qed

lemma Get_Inl_iff:
  "Get db h = Inl e \<longleftrightarrow> e = NotFound h \<and> (\<forall>ep\<in>set db. \<not> MatchString (regex ep) h)"
  by (induction db) auto

lemma readFile_endpoints_file: "readFile endpoints_file = Some [a_com_entry, wildcard_entry]"
  by (simp add: endpoints_file_def a_com_pattern_def a_com_entry_def wildcard_entry_def
      LastIndex_def MustCompile_def meta_chars_def)

lemma Get_a_com: "Get [a_com_entry, wildcard_entry] ''a.com'' = Inr a_com_entry"
  by (simp add: a_com_entry_def MatchString_def)

lemma Get_b_com: "Get [a_com_entry, wildcard_entry] ''b.com'' = Inr wildcard_entry"
  by (simp add: a_com_entry_def wildcard_entry_def MatchString_def)

text \<open>
  Claim C8. \<open>Get\<close> returns the entry of the table that is the first, in the order of
  the table, whose pattern matches the host name, and the error exactly when no entry
  matches; on the empty table it returns the error for every name; on the table of the
  file \<open>a\.com,10.0.0.1:443\<close>, \<open>.*,10.0.0.2:443\<close> it returns the first entry for
  \<open>a.com\<close> and the second for \<open>b.com\<close>. Being a function of the table and the
  name, its result is determined by them.
\<close>

theorem Get_first_match:
  "(Get db h = Inr ep \<longleftrightarrow>
      (\<exists>i<length db. db ! i = ep \<and> MatchString (regex ep) h \<and>
          (\<forall>j<i. \<not> MatchString (regex (db ! j)) h))) \<and>
   (Get db h = Inl e \<longleftrightarrow> e = NotFound h \<and> (\<forall>ep\<in>set db. \<not> MatchString (regex ep) h)) \<and>
   Get [] h = Inl (NotFound h) \<and>
   readFile endpoints_file = Some [a_com_entry, wildcard_entry] \<and>
   Address a_com_entry = ''10.0.0.1:443'' \<and> Address wildcard_entry = ''10.0.0.2:443'' \<and>
   Get [a_com_entry, wildcard_entry] ''a.com'' = Inr a_com_entry \<and>
   Get [a_com_entry, wildcard_entry] ''b.com'' = Inr wildcard_entry"
  using Get_Inr_iff [of db h ep] Get_Inl_iff [of db h e] readFile_endpoints_file Get_a_com Get_b_com
  by (simp add: a_com_entry_def wildcard_entry_def)

theorem Get_first_match_witness:
  "MatchString (regex wildcard_entry) ''b.com'' \<and>
   \<not> MatchString (regex a_com_entry) ''b.com'' \<and>
   Get [a_com_entry] ''b.com'' = Inl (NotFound ''b.com'')"
proof -
  have "Get [a_com_entry, wildcard_entry] ''b.com'' = Inr wildcard_entry"
    by (simp add: a_com_entry_def wildcard_entry_def MatchString_def)
  then obtain i where i: "i < length [a_com_entry, wildcard_entry]"
    "[a_com_entry, wildcard_entry] ! i = wildcard_entry"
    "MatchString (regex wildcard_entry) ''b.com''"
    "\<forall>j<i. \<not> MatchString (regex ([a_com_entry, wildcard_entry] ! j)) ''b.com''"
    using Get_first_match [of "[a_com_entry, wildcard_entry]" "''b.com''" wildcard_entry]
    by blast
  have "a_com_entry \<noteq> wildcard_entry"
    by (simp add: a_com_entry_def wildcard_entry_def)
  with i(1,2) have "i = 1"
    by (cases i) auto
  with i(4) have no: "\<not> MatchString (regex a_com_entry) ''b.com''"
    by simp
  then have "Get [a_com_entry] ''b.com'' = Inl (NotFound ''b.com'')"
    using Get_first_match [of "[a_com_entry]" "''b.com''" _ "NotFound ''b.com''"]
    by simp
  with i(3) no show ?thesis
    by simp
qed



section \<open>The two handlers\<close>








end
